theory Spec2Isabelle
  imports Main "HOL-Library.Sublist" "HOL-Library.Multiset"
begin

section \<open>The skslc command-line driver (src/sksl/SkSLMain.cpp)\<close>

text \<open>
  The driver reads shader sources, looks for a \<^verbatim>\<open>/*#pragma settings ...*/\<close> comment,
  picks the shader stage from the input file name and the backend from the output file
  name, and reduces the result codes of a batch of jobs to one exit status.

  Strings are \<^typ>\<open>string\<close> (byte lists). A \<^verbatim>\<open>const char*\<close> is read up to its first NUL, which
  \<open>c_str\<close> makes explicit. The compiler, the code generators, the dehydrator, the file
  streams and \<^verbatim>\<open>printf\<close> are collaborators outside this file: the calls to them are
  recorded as the \<open>event\<close>s of the run, in order, and what a call answers is read from an
  \<open>Env\<close> of oracles that see the events so far.
\<close>

subsection \<open>Result codes\<close>

datatype ResultCode = kSuccess | kCompileError | kInputError | kOutputError

text \<open>The enumerators' values, which is what \<^verbatim>\<open>(int) resultCode\<close> returns.\<close>

fun result_int :: "ResultCode \<Rightarrow> int" where
  "result_int kSuccess = 0"
| "result_int kCompileError = 1"
| "result_int kInputError = 2"
| "result_int kOutputError = 3"

text \<open>\<^verbatim>\<open>std::max(a, b)\<close> on the enumeration: \<^verbatim>\<open>(a < b) ? b : a\<close>, comparing the values.\<close>

definition std_max :: "ResultCode \<Rightarrow> ResultCode \<Rightarrow> ResultCode" where
  "std_max a b = (if result_int a < result_int b then b else a)"

subsection \<open>C strings and the string helpers\<close>

definition NUL :: char where
  "NUL = CHR 0x00"

definition c_str :: "string \<Rightarrow> string" where
  "c_str s = takeWhile (\<lambda>c. c \<noteq> NUL) s"

definition strlen :: "string \<Rightarrow> nat" where
  "strlen s = length (c_str s)"

text \<open>
  \<^verbatim>\<open>strncmp(a, b, n) == 0\<close>: the first \<open>n\<close> characters agree, where a string that ends
  earlier agrees only with one that ends at the same place.
\<close>

definition strncmp_eq :: "string \<Rightarrow> string \<Rightarrow> nat \<Rightarrow> bool" where
  "strncmp_eq a b n = (take n (c_str a) = take n (c_str b))"

text \<open>
  \<^verbatim>\<open>strstr(haystack, needle)\<close>: the rest of the haystack from the first occurrence of the
  needle on (the returned pointer), or \<open>None\<close> for the null pointer.
\<close>

fun strstr :: "string \<Rightarrow> string \<Rightarrow> string option" where
  "strstr [] needle = (if needle = [] then Some [] else None)"
| "strstr (c # cs) needle =
     (if prefix needle (c # cs) then Some (c # cs) else strstr cs needle)"

text \<open>
  Modelled from the spec: \<^verbatim>\<open>SkSL::String::endsWith\<close>, \<^verbatim>\<open>SkSL::String::consumeSuffix\<close> and
  the comparison of an \<^verbatim>\<open>SkSL::String\<close> with a \<^verbatim>\<open>const char*\<close> (src/sksl/SkSLString.cpp is
  not among the sources). \<open>endsWith\<close> tests whether the text ends with the given suffix;
  \<open>consumeSuffix\<close> tests the same and, on a match, strips the suffix from the text;
  \<open>String_eq\<close> is the exact match of the two as C strings.
\<close>

definition String_eq :: "string \<Rightarrow> string \<Rightarrow> bool" where
  "String_eq s cstr = (c_str s = c_str cstr)"

definition endsWith :: "string \<Rightarrow> string \<Rightarrow> bool" where
  "endsWith s suf = suffix suf s"

definition consumeSuffix :: "string \<Rightarrow> string \<Rightarrow> bool \<times> string" where
  "consumeSuffix s suf =
     (if suffix suf s then (True, take (length s - length suf) s) else (False, s))"

subsection \<open>base_name\<close>

text \<open>
  What a C++ run does where \<^verbatim>\<open>std::string::append\<close> is given a count that wrapped around:
  it throws \<^verbatim>\<open>std::length_error\<close>, which nothing in this file catches.
\<close>

datatype fault = LengthError

text \<open>
  The loop that backs \<^verbatim>\<open>fileName\<close> up to the last slash. \<open>i\<close> is the offset of
  \<^verbatim>\<open>fileName\<close> in the buffer. \<^verbatim>\<open>fileName != fpPath\<close> compares a \<^verbatim>\<open>const char*\<close> with a
  string, so it compares contents.
\<close>

fun find_fileName :: "string \<Rightarrow> nat \<Rightarrow> nat" where
  "find_fileName fpPath 0 = 0"
| "find_fileName fpPath (Suc i) =
     (if \<not> String_eq fpPath (drop (Suc i) fpPath)
         \<and> CHR ''/'' \<noteq> fpPath ! i \<and> CHR 0x5C \<noteq> fpPath ! i
      then find_fileName fpPath i else Suc i)"

text \<open>
  \<^verbatim>\<open>end\<close> and \<^verbatim>\<open>fileName\<close> are offsets into the buffer. The second \<^verbatim>\<open>strncmp\<close> starts at
  \<^verbatim>\<open>end - strlen(suffix)\<close>. Where the path is shorter than the suffix this address lies
  before the buffer, and the bytes found there are not part of the path: here the
  comparison then starts at the beginning of the path and fails, a text shorter than the
  suffix being different from it. So the bytes before the buffer are taken not to spell
  the beginning of the suffix.
\<close>

definition base_name :: "string \<Rightarrow> string \<Rightarrow> string \<Rightarrow> fault + string" where
  "base_name fpPath pre suf =
     (let end = length fpPath;
          fileName = find_fileName fpPath end
      in if strncmp_eq (drop fileName fpPath) pre (strlen pre)
            \<and> strncmp_eq (drop (end - strlen suf) fpPath) suf (strlen suf) then
           if end < fileName + strlen pre + strlen suf then Inl LengthError
           else Inr (take (end - fileName - strlen pre - strlen suf)
                       (drop (fileName + strlen pre) fpPath))
         else Inr [])"

text \<open>
  The same with the bytes before the buffer made explicit: \<open>before k\<close> is the byte \<open>k + 1\<close>
  places before the start of the buffer, and \<open>bytes_to_end\<close> gives the \<open>n\<close> bytes that end at
  \<^verbatim>\<open>end\<close>, which is where the second \<^verbatim>\<open>strncmp\<close> reads. The two functions differ at most on a
  path that is shorter than the suffix and a tail of it (\<open>base_name_at_eq\<close> below), and they
  agree at the two calls in \<^verbatim>\<open>processCommand\<close> (\<open>base_name_at_Gr_fp\<close>, \<open>base_name_at_sksl\<close>).
\<close>

definition bytes_to_end :: "(nat \<Rightarrow> char) \<Rightarrow> string \<Rightarrow> nat \<Rightarrow> string" where
  "bytes_to_end before fpPath n =
     (if length fpPath < n then map before (rev [0..<n - length fpPath]) @ fpPath
      else drop (length fpPath - n) fpPath)"

definition base_name_at :: "(nat \<Rightarrow> char) \<Rightarrow> string \<Rightarrow> string \<Rightarrow> string \<Rightarrow> fault + string" where
  "base_name_at before fpPath pre suf =
     (let end = length fpPath;
          fileName = find_fileName fpPath end
      in if strncmp_eq (drop fileName fpPath) pre (strlen pre)
            \<and> strncmp_eq (bytes_to_end before fpPath (strlen suf)) suf (strlen suf) then
           if end < fileName + strlen pre + strlen suf then Inl LengthError
           else Inr (take (end - fileName - strlen pre - strlen suf)
                       (drop (fileName + strlen pre) fpPath))
         else Inr [])"

subsection \<open>Settings, capabilities and the events of a run\<close>

record Settings =
  fFlipY :: bool
  fForceHighPrecision :: bool
  fInlineThreshold :: int
  fSharpenTextures :: bool
  fReplaceSettings :: bool

definition INT_MAX :: int where
  "INT_MAX = 2147483647"

text \<open>
  A \<^verbatim>\<open>const ShaderCapsClass*\<close>: the address of \<^verbatim>\<open>SkSL::standaloneCaps\<close> or of one of the
  function-local statics of \<^verbatim>\<open>detect_shader_settings\<close>, each made once by its factory.
\<close>

datatype ShaderCapsRef =
    standaloneCaps
  | s_addAndTrueCaps | s_blendZeroCaps | s_negativeFractCaps | s_noFragCoordCaps
  | s_minAbsCaps | s_defaultCaps | s_emulateAbsIntCaps | s_fragCoordsOld
  | s_fragCoordsNew | s_geometryExtCaps | s_geometryShaderCaps | s_gsInvocationCaps
  | s_incompleteShortIntCaps | s_div0Caps | s_negativeAtanCaps | s_noGSInvocations
  | s_powCaps | s_rewriteLoopCaps | s_derivativeCaps | s_ternaryCaps
  | s_precisionCaps | s_version110Caps | s_version450CoreCaps

datatype Kind =
    kVertex_Kind | kFragment_Kind | kGeometry_Kind | kFragmentProcessor_Kind
  | kPipelineStage_Kind

datatype fmt_arg = ArgS string | ArgD nat

datatype emitter = toSPIRV | toGLSL | toMetal | toH string | toCPP string

datatype event =
    Stdout_printf string "fmt_arg list"
  | Stdout_puts string
  | Ifstream_read string "string option"
  | FileOutputStream_open string bool
  | FileOutputStream_writeText string string
  | FileOutputStream_printf string string "fmt_arg list"
  | FileOutputStream_close string bool
  | Compiler_new ShaderCapsRef bool
  | Compiler_convertProgram Kind string Settings bool
  | Compiler_emit emitter bool
  | Compiler_loadModule Kind string
  | Dehydrator_write_symbols
  | Dehydrator_write_elements
  | Dehydrator_finish string

subsection \<open>detect_shader_settings\<close>

definition kPragmaSettings :: string where
  "kPragmaSettings = ''/*#pragma settings ''"

text \<open>What the body of one \<^verbatim>\<open>if (settingsText.consumeSuffix(...))\<close> does.\<close>

datatype effect =
    SetCaps ShaderCapsRef
  | SetFlipY
  | SetForceHighPrecision
  | SetInlineThreshold int
  | SetSharpenTextures

fun apply_effect :: "effect \<Rightarrow> Settings \<times> ShaderCapsRef \<Rightarrow> Settings \<times> ShaderCapsRef" where
  "apply_effect (SetCaps b) (settings, caps) = (settings, b)"
| "apply_effect SetFlipY (settings, caps) = (settings\<lparr>fFlipY := True\<rparr>, caps)"
| "apply_effect SetForceHighPrecision (settings, caps) =
     (settings\<lparr>fForceHighPrecision := True\<rparr>, caps)"
| "apply_effect (SetInlineThreshold n) (settings, caps) =
     (settings\<lparr>fInlineThreshold := n\<rparr>, caps)"
| "apply_effect SetSharpenTextures (settings, caps) =
     (settings\<lparr>fSharpenTextures := True\<rparr>, caps)"

text \<open>The \<^verbatim>\<open>if\<close> statements of the loop body (lines 86 to 192), in the order of the source.\<close>

definition pragma_table :: "(string \<times> effect) list" where
  "pragma_table =
   [ ('' AddAndTrueToLoopCondition'', SetCaps s_addAndTrueCaps),
     ('' BlendModesFailRandomlyForAllZeroVec'', SetCaps s_blendZeroCaps),
     ('' CannotUseFractForNegativeValues'', SetCaps s_negativeFractCaps),
     ('' CannotUseFragCoord'', SetCaps s_noFragCoordCaps),
     ('' CannotUseMinAndAbsTogether'', SetCaps s_minAbsCaps),
     ('' Default'', SetCaps s_defaultCaps),
     ('' EmulateAbsIntFunction'', SetCaps s_emulateAbsIntCaps),
     ('' FragCoordsOld'', SetCaps s_fragCoordsOld),
     ('' FragCoordsNew'', SetCaps s_fragCoordsNew),
     ('' GeometryShaderExtensionString'', SetCaps s_geometryExtCaps),
     ('' GeometryShaderSupport'', SetCaps s_geometryShaderCaps),
     ('' GSInvocationsExtensionString'', SetCaps s_gsInvocationCaps),
     ('' IncompleteShortIntPrecision'', SetCaps s_incompleteShortIntCaps),
     ('' MustGuardDivisionEvenAfterExplicitZeroCheck'', SetCaps s_div0Caps),
     ('' MustForceNegatedAtanParamToFloat'', SetCaps s_negativeAtanCaps),
     ('' NoGSInvocationsSupport'', SetCaps s_noGSInvocations),
     ('' RemovePowWithConstantExponent'', SetCaps s_powCaps),
     ('' RewriteDoWhileLoops'', SetCaps s_rewriteLoopCaps),
     ('' ShaderDerivativeExtensionString'', SetCaps s_derivativeCaps),
     ('' UnfoldShortCircuitAsTernary'', SetCaps s_ternaryCaps),
     ('' UsesPrecisionModifiers'', SetCaps s_precisionCaps),
     ('' Version110'', SetCaps s_version110Caps),
     ('' Version450Core'', SetCaps s_version450CoreCaps),
     ('' FlipY'', SetFlipY),
     ('' ForceHighPrecision'', SetForceHighPrecision),
     ('' NoInline'', SetInlineThreshold 0),
     ('' InlineThresholdMax'', SetInlineThreshold INT_MAX),
     ('' Sharpen'', SetSharpenTextures) ]"

text \<open>One \<^verbatim>\<open>if\<close> statement: strip the token when the text ends with it, and apply its body.\<close>

fun try_token ::
  "string \<times> effect \<Rightarrow> string \<times> Settings \<times> ShaderCapsRef \<Rightarrow> string \<times> Settings \<times> ShaderCapsRef"
where
  "try_token (tok, eff) (settingsText, st) =
     (case consumeSuffix settingsText tok of
        (True, settingsText') \<Rightarrow> (settingsText', apply_effect eff st)
      | (False, _) \<Rightarrow> (settingsText, st))"

text \<open>One turn of the \<^verbatim>\<open>for (;;)\<close> loop up to line 192: every \<^verbatim>\<open>if\<close> once, in order.\<close>

definition settings_pass ::
  "string \<times> Settings \<times> ShaderCapsRef \<Rightarrow> string \<times> Settings \<times> ShaderCapsRef" where
  "settings_pass = fold try_token pragma_table"

lemma try_token_length: "length (fst (try_token te s)) \<le> length (fst s)"
  by (cases te; cases s) (simp add: consumeSuffix_def)

lemma fold_try_token_length: "length (fst (fold try_token tbl s)) \<le> length (fst s)"
proof (induction tbl arbitrary: s)
  case Nil
  show ?case by simp
next
  case (Cons te tbl)
  have "length (fst (fold try_token tbl (try_token te s))) \<le> length (fst (try_token te s))"
    by (rule Cons.IH)
  also have "\<dots> \<le> length (fst s)"
    by (rule try_token_length)
  finally show ?case by simp
qed

lemma settings_pass_length: "length (fst (settings_pass s)) \<le> length (fst s)"
  unfolding settings_pass_def by (rule fold_try_token_length)

text \<open>
  The \<^verbatim>\<open>for (;;)\<close> loop (lines 83 to 201). It returns \<open>True\<close> where the source breaks out of
  the loop and \<open>False\<close> where it returns false, with the settings and the capability
  pointer as they stand then, and the events with what it printed.
\<close>

function settings_loop ::
  "string \<Rightarrow> Settings \<times> ShaderCapsRef \<Rightarrow> event list \<Rightarrow> (bool \<times> Settings \<times> ShaderCapsRef) \<times> event list"
where
  "settings_loop settingsText st evs =
     (let startingLength = length settingsText;
          after = settings_pass (settingsText, st)
      in if fst after = [] then ((True, snd after), evs)
         else if length (fst after) = startingLength then
           ((False, snd after),
            evs @ [Stdout_printf ''Unrecognized #pragma settings: %s\<newline>''
                     [ArgS (c_str (fst after))]])
         else settings_loop (fst after) (snd after) evs)"
  by pat_completeness auto
termination
proof (relation "measure (\<lambda>(settingsText, st, evs). length settingsText)")
  show "wf (measure (\<lambda>(settingsText, st, evs). length settingsText))"
    by simp
next
  fix settingsText :: string and st :: "Settings \<times> ShaderCapsRef" and evs :: "event list"
    and startingLength after
  assume "startingLength = length settingsText"
    and "after = settings_pass (settingsText, st)"
    and "fst after \<noteq> []"
    and "length (fst after) \<noteq> startingLength"
  moreover have "length (fst (settings_pass (settingsText, st))) \<le> length settingsText"
    using settings_pass_length [of "(settingsText, st)"] by simp
  ultimately show "((fst after, snd after, evs), (settingsText, st, evs))
      \<in> measure (\<lambda>(settingsText, st, evs). length settingsText)"
    by simp
qed

declare settings_loop.simps [simp del]

definition detect_shader_settings ::
  "string \<Rightarrow> Settings \<times> ShaderCapsRef \<Rightarrow> event list \<Rightarrow> (bool \<times> Settings \<times> ShaderCapsRef) \<times> event list"
where
  "detect_shader_settings text st evs =
     (case strstr (c_str text) kPragmaSettings of
        None \<Rightarrow> ((True, st), evs)
      | Some found \<Rightarrow>
          (let settingsPtr = drop (strlen kPragmaSettings - 1) found in
           case strstr settingsPtr ''*/'' of
             None \<Rightarrow> ((True, st), evs)
           | Some settingsEnd \<Rightarrow>
               settings_loop (take (length settingsPtr - length settingsEnd) settingsPtr)
                 st evs))"

subsection \<open>The collaborators\<close>

text \<open>
  What the calls into the rest of the program answer. Each oracle sees the events so
  far, so an answer may depend on everything the run has done (a file written by an
  earlier job can be read by a later one). \<open>Settings_ctor\<close> is a default-constructed
  \<^verbatim>\<open>SkSL::Program::Settings\<close>, whose declaration is not among the sources.
\<close>

record Env =
  Settings_ctor :: Settings
  ifstream_read :: "event list \<Rightarrow> string \<Rightarrow> string option"
  out_isValid :: "event list \<Rightarrow> string \<Rightarrow> bool"
  out_close :: "event list \<Rightarrow> string \<Rightarrow> bool"
  convertProgram_ok :: "event list \<Rightarrow> Kind \<Rightarrow> string \<Rightarrow> Settings \<Rightarrow> bool"
  emit_ok :: "event list \<Rightarrow> emitter \<Rightarrow> bool"
  errorText :: "event list \<Rightarrow> string"
  dehydrated_data :: "event list \<Rightarrow> string"
  prefixAtOffset :: "event list \<Rightarrow> nat \<Rightarrow> string"

subsection \<open>processCommand\<close>

definition usage_banner :: string where
  "usage_banner =
     ''usage: skslc <input> <output> <flags> -- <input2> <output2> <flags> -- ...\<newline>'' @
     ''\<newline>'' @
     ''Allowed flags:\<newline>'' @
     ''--settings:   honor embedded /*#pragma settings*/ comments.\<newline>'' @
     ''--nosettings: ignore /*#pragma settings*/ comments\<newline>''"

definition show_usage :: "event list \<Rightarrow> event list" where
  "show_usage evs = evs @ [Stdout_printf usage_banner []]"

text \<open>
  Lines 223 to 239: the shape of the argument list. \<open>Inr honorSettings\<close> when the job goes
  on, \<open>Inl\<close> the events when it returns \<^verbatim>\<open>kInputError\<close>.
\<close>

definition check_args :: "string list \<Rightarrow> event list \<Rightarrow> event list + bool" where
  "check_args args evs =
     (if length args = 4 then
        (let settingsArg = args ! 3 in
         if String_eq settingsArg ''--settings'' then Inr True
         else if String_eq settingsArg ''--nosettings'' then Inr False
         else Inl (show_usage
                (evs @ [Stdout_printf ''unrecognized flag: %s\<newline>\<newline>''
                          [ArgS (c_str settingsArg)]])))
      else if length args \<noteq> 3 then Inl (show_usage evs)
      else Inr True)"

text \<open>Lines 241 to 257: the stage of the input file, \<open>None\<close> where the source gives up.\<close>

definition resolve_kind :: "string \<Rightarrow> Kind option" where
  "resolve_kind inputPath =
     (if endsWith inputPath ''.vert'' then Some kVertex_Kind
      else if endsWith inputPath ''.frag'' \<or> endsWith inputPath ''.sksl'' then Some kFragment_Kind
      else if endsWith inputPath ''.geom'' then Some kGeometry_Kind
      else if endsWith inputPath ''.fp'' then Some kFragmentProcessor_Kind
      else if endsWith inputPath ''.stage'' then Some kPipelineStage_Kind
      else None)"

definition bad_input_suffix :: string where
  "bad_input_suffix =
     ''input filename must end in '.vert', '.frag', '.geom', '.fp', '.stage', or '.sksl'\<newline>''"

definition bad_output_suffix :: string where
  "bad_output_suffix =
     ''expected output filename to end with '.spirv', '.glsl', '.cpp', '.h', or '.metal'' @
     [CHR 0x27]"

definition error_writing :: "string \<Rightarrow> event list \<Rightarrow> event list" where
  "error_writing outputPath evs =
     evs @ [Stdout_printf ''error writing '%s'\<newline>'' [ArgS (c_str outputPath)]]"

text \<open>The lambda \<^verbatim>\<open>emitCompileError\<close> (lines 276 to 285).\<close>

definition emitCompileError :: "Env \<Rightarrow> string \<Rightarrow> string \<Rightarrow> event list \<Rightarrow> event list" where
  "emitCompileError env outputPath errText evs =
     (let evs1 = evs @ [FileOutputStream_close outputPath (out_close env evs outputPath)];
          evs2 = evs1 @ [FileOutputStream_open outputPath (out_isValid env evs1 outputPath)];
          evs3 = evs2 @ [FileOutputStream_writeText outputPath
                           ''### Compilation failed:\<newline>\<newline>''];
          evs4 = evs3 @ [FileOutputStream_writeText outputPath errText];
          evs5 = evs4 @ [FileOutputStream_close outputPath (out_close env evs4 outputPath)]
      in evs5 @ [Stdout_puts errText])"

text \<open>
  The five blocks that run the compiler and one code generator (\<^verbatim>\<open>.spirv\<close>, \<^verbatim>\<open>.glsl\<close>,
  \<^verbatim>\<open>.metal\<close>, \<^verbatim>\<open>.h\<close>, \<^verbatim>\<open>.cpp\<close>; lines 288 to 368) are the same statements but for the
  compiler's flag, the assignment to \<^verbatim>\<open>fReplaceSettings\<close> and the generator called.
  \<open>permitInvalid\<close> is whether \<^verbatim>\<open>kPermitInvalidStaticTests_Flag\<close> is passed, \<open>adjust\<close> the
  assignment, and \<open>gen\<close> the generator with its arguments, which the source evaluates
  only once the program is there.
\<close>

definition compile_to ::
  "Env \<Rightarrow> bool \<Rightarrow> (Settings \<Rightarrow> Settings) \<Rightarrow> fault + emitter \<Rightarrow> Kind \<Rightarrow> string
     \<Rightarrow> Settings \<times> ShaderCapsRef \<Rightarrow> string \<Rightarrow> event list
     \<Rightarrow> (fault + ResultCode) \<times> event list"
where
  "compile_to env permitInvalid adjust gen kind text st outputPath evs =
     (let valid = out_isValid env evs outputPath;
          evs1 = evs @ [FileOutputStream_open outputPath valid];
          evs2 = evs1 @ [Compiler_new (snd st) permitInvalid]
      in if \<not> valid then (Inr kOutputError, error_writing outputPath evs2)
         else
           (let settings = adjust (fst st);
                program = convertProgram_ok env evs2 kind text settings;
                evs3 = evs2 @ [Compiler_convertProgram kind text settings program]
            in if \<not> program then
                 (Inr kCompileError,
                  emitCompileError env outputPath (c_str (errorText env evs3)) evs3)
               else
                 (case gen of
                    Inl f \<Rightarrow> (Inl f, evs3)
                  | Inr g \<Rightarrow>
                      (let ok = emit_ok env evs3 g;
                           evs4 = evs3 @ [Compiler_emit g ok]
                       in if \<not> ok then
                            (Inr kCompileError,
                             emitCompileError env outputPath (c_str (errorText env evs4)) evs4)
                          else
                            (let closed = out_close env evs4 outputPath;
                                 evs5 = evs4 @ [FileOutputStream_close outputPath closed]
                             in if \<not> closed then
                                  (Inr kOutputError, error_writing outputPath evs5)
                                else (Inr kSuccess, evs5))))))"

text \<open>The loop of lines 386 to 388, one \<^verbatim>\<open>out.printf\<close> for each byte of the data.\<close>

fun print_bytes :: "Env \<Rightarrow> string \<Rightarrow> string \<Rightarrow> nat \<Rightarrow> event list \<Rightarrow> event list" where
  "print_bytes env outputPath [] i evs = evs"
| "print_bytes env outputPath (b # bs) i evs =
     print_bytes env outputPath bs (Suc i)
       (evs @ [FileOutputStream_printf outputPath ''%s%d,''
                 [ArgS (c_str (prefixAtOffset env evs i)), ArgD (of_char b)]])"

text \<open>The \<^verbatim>\<open>.dehydrated.sksl\<close> block (lines 370 to 395).\<close>

definition dehydrate_to ::
  "Env \<Rightarrow> Kind \<Rightarrow> string \<Rightarrow> Settings \<times> ShaderCapsRef \<Rightarrow> string \<Rightarrow> event list
     \<Rightarrow> (fault + ResultCode) \<times> event list"
where
  "dehydrate_to env kind inputPath st outputPath evs =
     (let valid = out_isValid env evs outputPath;
          evs1 = evs @ [FileOutputStream_open outputPath valid];
          evs2 = evs1 @ [Compiler_new (snd st) False]
      in if \<not> valid then (Inr kOutputError, error_writing outputPath evs2)
         else
           (let evs3 = evs2 @ [Compiler_loadModule kind (c_str inputPath),
                               Dehydrator_write_symbols, Dehydrator_write_elements] in
            case base_name inputPath [] ''.sksl'' of
              Inl f \<Rightarrow> (Inl f, evs3)
            | Inr baseName \<Rightarrow>
                (let data = dehydrated_data env evs3;
                     evs4 = evs3 @ [Dehydrator_finish data];
                     evs5 = evs4 @ [FileOutputStream_printf outputPath
                                      ''static uint8_t SKSL_INCLUDE_%s[] = {''
                                      [ArgS (c_str baseName)]];
                     evs6 = print_bytes env outputPath data 0 evs5;
                     evs7 = evs6 @ [FileOutputStream_printf outputPath ''};\<newline>'' []];
                     evs8 = evs7 @ [FileOutputStream_printf outputPath
                       (''static constexpr size_t SKSL_INCLUDE_%s_LENGTH = '' @
                        ''sizeof(SKSL_INCLUDE_%s);\<newline>'')
                       [ArgS (c_str baseName), ArgS (c_str baseName)]];
                     closed = out_close env evs8 outputPath;
                     evs9 = evs8 @ [FileOutputStream_close outputPath closed]
                 in if \<not> closed then (Inr kOutputError, error_writing outputPath evs9)
                    else (Inr kSuccess, evs9))))"

text \<open>Lines 287 to 400: the backend is chosen by the end of the output file name.\<close>

definition route ::
  "Env \<Rightarrow> Kind \<Rightarrow> string \<Rightarrow> string \<Rightarrow> Settings \<times> ShaderCapsRef \<Rightarrow> string \<Rightarrow> event list
     \<Rightarrow> (fault + ResultCode) \<times> event list"
where
  "route env kind inputPath text st outputPath evs =
     (if endsWith outputPath ''.spirv'' then
        compile_to env False (\<lambda>s. s) (Inr toSPIRV) kind text st outputPath evs
      else if endsWith outputPath ''.glsl'' then
        compile_to env False (\<lambda>s. s) (Inr toGLSL) kind text st outputPath evs
      else if endsWith outputPath ''.metal'' then
        compile_to env False (\<lambda>s. s) (Inr toMetal) kind text st outputPath evs
      else if endsWith outputPath ''.h'' then
        compile_to env True (\<lambda>s. s\<lparr>fReplaceSettings := False\<rparr>)
          (map_sum (\<lambda>f. f) toH (base_name (c_str inputPath) ''Gr'' ''.fp''))
          kind text st outputPath evs
      else if endsWith outputPath ''.cpp'' then
        compile_to env True (\<lambda>s. s\<lparr>fReplaceSettings := False\<rparr>)
          (map_sum (\<lambda>f. f) toCPP (base_name (c_str inputPath) ''Gr'' ''.fp''))
          kind text st outputPath evs
      else if endsWith outputPath ''.dehydrated.sksl'' then
        dehydrate_to env kind inputPath st outputPath evs
      else (Inr kInputError, evs @ [Stdout_printf bad_output_suffix []]))"

definition processCommand ::
  "Env \<Rightarrow> string list \<Rightarrow> event list \<Rightarrow> (fault + ResultCode) \<times> event list" where
  "processCommand env args evs =
     (case check_args args evs of
        Inl evs' \<Rightarrow> (Inr kInputError, evs')
      | Inr honorSettings \<Rightarrow>
          (let inputPath = args ! 1 in
           case resolve_kind inputPath of
             None \<Rightarrow> (Inr kInputError, evs @ [Stdout_printf bad_input_suffix []])
           | Some kind \<Rightarrow>
               (let rd = ifstream_read env evs inputPath;
                    evs1 = evs @ [Ifstream_read inputPath rd]
                in case rd of
                     None \<Rightarrow>
                       (Inr kInputError,
                        evs1 @ [Stdout_printf ''error reading '%s'\<newline>''
                                  [ArgS (c_str inputPath)]])
                   | Some text \<Rightarrow>
                       (let detected =
                              (if honorSettings then
                                 detect_shader_settings text (Settings_ctor env, standaloneCaps) evs1
                               else ((True, Settings_ctor env, standaloneCaps), evs1))
                        in if \<not> fst (fst detected) then (Inr kInputError, snd detected)
                           else route env kind inputPath text (snd (fst detected))
                                  (args ! 2) (snd detected)))))"

subsection \<open>main\<close>

text \<open>
  The loop of lines 407 to 422 over \<^verbatim>\<open>argv[1]\<close> to \<^verbatim>\<open>argv[argc - 1]\<close>, with the arguments
  stored up and the worst result so far. A job that runs into a fault ends the run.
\<close>

fun main_loop ::
  "Env \<Rightarrow> string list \<Rightarrow> string list \<Rightarrow> ResultCode \<Rightarrow> event list
     \<Rightarrow> (fault + string list \<times> ResultCode) \<times> event list"
where
  "main_loop env [] args resultCode evs = (Inr (args, resultCode), evs)"
| "main_loop env (a # rest) args resultCode evs =
     (let arg = c_str a in
      if \<not> String_eq arg ''--'' then main_loop env rest (args @ [arg]) resultCode evs
      else if length args > 1 then
        (case processCommand env args evs of
           (Inl f, evs') \<Rightarrow> (Inl f, evs')
         | (Inr outcome, evs') \<Rightarrow>
             main_loop env rest (take 1 args) (std_max resultCode outcome) evs')
      else main_loop env rest args resultCode evs)"

text \<open>
  \<^verbatim>\<open>main(argc, argv)\<close> with \<^verbatim>\<open>argv[0]\<close> and the list of \<^verbatim>\<open>argv[1]\<close> to \<^verbatim>\<open>argv[argc - 1]\<close>;
  the result is the exit status.
\<close>

definition main :: "Env \<Rightarrow> string \<Rightarrow> string list \<Rightarrow> event list \<Rightarrow> (fault + int) \<times> event list" where
  "main env argv0 argv evs =
     (case main_loop env argv [c_str argv0] kSuccess evs of
        (Inl f, evs') \<Rightarrow> (Inl f, evs')
      | (Inr (args, resultCode), evs') \<Rightarrow>
          if length args > 1 then
            (case processCommand env args evs' of
               (Inl f, evs'') \<Rightarrow> (Inl f, evs'')
             | (Inr outcome, evs'') \<Rightarrow> (Inr (result_int (std_max resultCode outcome)), evs''))
          else (Inr (result_int resultCode), evs'))"

section \<open>Reading the specification\<close>

subsection \<open>Jobs of a batch\<close>

text \<open>
  The specification's batch: the arguments after \<^verbatim>\<open>argv[0]\<close> are split at every \<^verbatim>\<open>--\<close>; each
  segment that is not empty is a job, with \<^verbatim>\<open>argv[0]\<close> in front; the jobs run in order.
\<close>

fun segments :: "string list \<Rightarrow> string list list" where
  "segments [] = [[]]"
| "segments (a # as) =
     (if a = ''--'' then [] # segments as
      else (a # hd (segments as)) # tl (segments as))"

definition batch_jobs :: "string \<Rightarrow> string list \<Rightarrow> string list list" where
  "batch_jobs argv0 argv =
     map (\<lambda>seg. c_str argv0 # seg) (filter (\<lambda>seg. seg \<noteq> []) (segments (map c_str argv)))"

fun run_jobs ::
  "Env \<Rightarrow> string list list \<Rightarrow> event list \<Rightarrow> (fault + ResultCode list) \<times> event list" where
  "run_jobs env [] evs = (Inr [], evs)"
| "run_jobs env (job # jobs) evs =
     (case processCommand env job evs of
        (Inl f, evs') \<Rightarrow> (Inl f, evs')
      | (Inr outcome, evs') \<Rightarrow>
          (case run_jobs env jobs evs' of
             (Inl f, evs'') \<Rightarrow> (Inl f, evs'')
           | (Inr outcomes, evs'') \<Rightarrow> (Inr (outcome # outcomes), evs'')))"

text \<open>The end of \<open>main\<close> after its loop, and the reduction of the outcomes, for the proof.\<close>

definition main_finish ::
  "Env \<Rightarrow> (fault + string list \<times> ResultCode) \<times> event list \<Rightarrow> (fault + int) \<times> event list" where
  "main_finish env r =
     (case r of
        (Inl f, evs') \<Rightarrow> (Inl f, evs')
      | (Inr (args, resultCode), evs') \<Rightarrow>
          if length args > 1 then
            (case processCommand env args evs' of
               (Inl f, evs'') \<Rightarrow> (Inl f, evs'')
             | (Inr outcome, evs'') \<Rightarrow> (Inr (result_int (std_max resultCode outcome)), evs''))
          else (Inr (result_int resultCode), evs'))"

definition reduce_from ::
  "ResultCode \<Rightarrow> (fault + ResultCode list) \<times> event list \<Rightarrow> (fault + int) \<times> event list" where
  "reduce_from rc r =
     (case r of
        (Inl f, e) \<Rightarrow> (Inl f, e)
      | (Inr outcomes, e) \<Rightarrow> (Inr (result_int (foldl std_max rc outcomes)), e))"

subsection \<open>Input suffixes\<close>

definition recognized_input :: "string \<Rightarrow> bool" where
  "recognized_input p =
     (suffix ''.vert'' p \<or> suffix ''.frag'' p \<or> suffix ''.sksl'' p \<or> suffix ''.geom'' p
      \<or> suffix ''.fp'' p \<or> suffix ''.stage'' p)"

subsection \<open>The text of the pragma\<close>

text \<open>
  Lines 71 to 79 on their own: the text between the first marker and the first \<^verbatim>\<open>*/\<close> after
  it, with the marker's last space in front, or \<open>None\<close> where one of the two is not found.
\<close>

definition isolate :: "string \<Rightarrow> string option" where
  "isolate settingsPtr =
     (case strstr settingsPtr ''*/'' of
        None \<Rightarrow> None
      | Some settingsEnd \<Rightarrow> Some (take (length settingsPtr - length settingsEnd) settingsPtr))"

definition pragma_text :: "string \<Rightarrow> string option" where
  "pragma_text text =
     (case strstr (c_str text) kPragmaSettings of
        None \<Rightarrow> None
      | Some found \<Rightarrow> isolate (drop (strlen kPragmaSettings - 1) found))"

definition unrecognized :: "string \<Rightarrow> event" where
  "unrecognized r = Stdout_printf ''Unrecognized #pragma settings: %s\<newline>'' [ArgS (c_str r)]"

subsection \<open>Right-to-left consumption\<close>

text \<open>
  The specification reads the pragma as a sequence of tokens taken off the right end one
  at a time. \<open>token_of x\<close> is the entry of the table whose token ends \<open>x\<close>; \<open>rtl\<close> strips
  tokens until none ends the text and returns what is left with the settings and the
  capabilities; \<open>consumed\<close> lists the entries it strips, in that order.
\<close>

definition token_of :: "string \<Rightarrow> (string \<times> effect) option" where
  "token_of x = find (\<lambda>te. suffix (fst te) x) pragma_table"

lemma pragma_table_shape:
  "te \<in> set pragma_table \<Longrightarrow> \<exists>name. fst te = CHR '' '' # name \<and> CHR '' '' \<notin> set name"
  unfolding pragma_table_def by auto

lemma token_of_SomeD:
  "token_of x = Some te \<Longrightarrow> te \<in> set pragma_table \<and> suffix (fst te) x \<and> fst te \<noteq> []"
proof -
  assume "token_of x = Some te"
  then obtain i where "i < length pragma_table" "suffix (fst (pragma_table ! i)) x"
      "te = pragma_table ! i"
    unfolding token_of_def find_Some_iff by blast
  then have "te \<in> set pragma_table" "suffix (fst te) x" by simp_all
  moreover from pragma_table_shape [OF this(1)] have "fst te \<noteq> []" by auto
  ultimately show ?thesis by simp
qed

lemma token_of_shortens:
  assumes "token_of x = Some te"
  shows "length x - length (fst te) < length x"
proof -
  from token_of_SomeD [OF assms] have "fst te \<noteq> []" and "suffix (fst te) x" by simp_all
  then show ?thesis
    using suffix_length_le [of "fst te" x] by (cases "fst te") simp_all
qed

function rtl :: "string \<Rightarrow> Settings \<times> ShaderCapsRef \<Rightarrow> string \<times> Settings \<times> ShaderCapsRef" where
  "rtl x st =
     (case token_of x of
        None \<Rightarrow> (x, st)
      | Some te \<Rightarrow> rtl (take (length x - length (fst te)) x) (apply_effect (snd te) st))"
  by pat_completeness auto
termination
proof (relation "measure (\<lambda>(x, st). length x)")
  show "wf (measure (\<lambda>(x, st). length x))" by simp
next
  fix x :: string and st :: "Settings \<times> ShaderCapsRef" and te
  assume "token_of x = Some te"
  from token_of_shortens [OF this]
  show "((take (length x - length (fst te)) x, apply_effect (snd te) st), (x, st))
      \<in> measure (\<lambda>(x, st). length x)"
    by simp
qed

declare rtl.simps [simp del]

function consumed :: "string \<Rightarrow> (string \<times> effect) list" where
  "consumed x =
     (case token_of x of
        None \<Rightarrow> []
      | Some te \<Rightarrow> te # consumed (take (length x - length (fst te)) x))"
  by pat_completeness auto
termination
proof (relation "measure length")
  show "wf (measure length)" by simp
next
  fix x :: string and te
  assume "token_of x = Some te"
  from token_of_shortens [OF this]
  show "(take (length x - length (fst te)) x, x) \<in> measure length"
    by simp
qed

declare consumed.simps [simp del]

text \<open>What the loop returns, read off \<open>rtl\<close>.\<close>

definition rtl_result ::
  "string \<Rightarrow> Settings \<times> ShaderCapsRef \<Rightarrow> event list \<Rightarrow> (bool \<times> Settings \<times> ShaderCapsRef) \<times> event list"
where
  "rtl_result x st evs =
     (if fst (rtl x st) = [] then ((True, snd (rtl x st)), evs)
      else ((False, snd (rtl x st)), evs @ [unrecognized (fst (rtl x st))]))"

text \<open>The end of one turn of the loop (lines 194 to 200), for the proof.\<close>

definition finish_pass ::
  "nat \<Rightarrow> string \<times> Settings \<times> ShaderCapsRef \<Rightarrow> event list \<Rightarrow> (bool \<times> Settings \<times> ShaderCapsRef) \<times> event list"
where
  "finish_pass startingLength after evs =
     (if fst after = [] then ((True, snd after), evs)
      else if length (fst after) = startingLength then
        ((False, snd after), evs @ [unrecognized (fst after)])
      else settings_loop (fst after) (snd after) evs)"

text \<open>The capability selectors among a list of table entries, and the effect of the list.\<close>

fun selected :: "effect \<Rightarrow> ShaderCapsRef option" where
  "selected (SetCaps b) = Some b"
| "selected _ = None"

definition selectors :: "(string \<times> effect) list \<Rightarrow> ShaderCapsRef list" where
  "selectors toks = List.map_filter (\<lambda>te. selected (snd te)) toks"

definition apply_tokens ::
  "(string \<times> effect) list \<Rightarrow> Settings \<times> ShaderCapsRef \<Rightarrow> Settings \<times> ShaderCapsRef" where
  "apply_tokens toks st = foldr (\<lambda>te. apply_effect (snd te)) toks st"

subsection \<open>Steps of a pipeline among the events\<close>

fun close_failed :: "event \<Rightarrow> bool" where
  "close_failed (FileOutputStream_close p ok) = (\<not> ok)"
| "close_failed _ = False"

fun step_failed :: "event \<Rightarrow> bool" where
  "step_failed (FileOutputStream_open p ok) = (\<not> ok)"
| "step_failed (Compiler_convertProgram k t s ok) = (\<not> ok)"
| "step_failed (Compiler_emit g ok) = (\<not> ok)"
| "step_failed _ = False"

subsection \<open>The file name of a path\<close>

text \<open>The part of a path after its last slash or backslash, the whole path where it has none.\<close>

definition is_slash :: "char \<Rightarrow> bool" where
  "is_slash c = (c = CHR ''/'' \<or> c = CHR 0x5C)"

definition file_part :: "string \<Rightarrow> string" where
  "file_part p = rev (takeWhile (\<lambda>c. \<not> is_slash c) (rev p))"

subsection \<open>Parts of the state\<close>

text \<open>
  What the body of an \<^verbatim>\<open>if\<close> statement of the loop assigns to: the capability pointer or
  one of the four settings. Two tokens are disjoint when they write different parts.
\<close>

datatype state_part =
  Part_caps | Part_fFlipY | Part_fForceHighPrecision | Part_fInlineThreshold | Part_fSharpenTextures

fun writes :: "effect \<Rightarrow> state_part" where
  "writes (SetCaps b) = Part_caps"
| "writes SetFlipY = Part_fFlipY"
| "writes SetForceHighPrecision = Part_fForceHighPrecision"
| "writes (SetInlineThreshold n) = Part_fInlineThreshold"
| "writes SetSharpenTextures = Part_fSharpenTextures"

text \<open>
  The selector that stands leftmost in a text: the bundle of the first selector token,
  reading from the left, that starts at some place of the text.
\<close>

fun leftmost_selector :: "string \<Rightarrow> ShaderCapsRef option" where
  "leftmost_selector [] = None"
| "leftmost_selector (c # cs) =
     (case find (\<lambda>te. selected (snd te) \<noteq> None \<and> prefix (fst te) (c # cs)) pragma_table of
        Some te \<Rightarrow> selected (snd te)
      | None \<Rightarrow> leftmost_selector cs)"

subsection \<open>A job up to the close of its output\<close>

text \<open>
  Lines 223 to 273 on their own: the stage, the source that was read, the settings and the
  capabilities after the pragma and the events so far, for a job that gets to its
  backend; \<open>None\<close> for a job that ends before.
\<close>

definition front_end ::
  "Env \<Rightarrow> string list \<Rightarrow> event list
     \<Rightarrow> (Kind \<times> string \<times> (Settings \<times> ShaderCapsRef) \<times> event list) option"
where
  "front_end env args evs =
     (case check_args args evs of
        Inl evs' \<Rightarrow> None
      | Inr honorSettings \<Rightarrow>
          (case resolve_kind (args ! 1) of
             None \<Rightarrow> None
           | Some kind \<Rightarrow>
               (case ifstream_read env evs (args ! 1) of
                  None \<Rightarrow> None
                | Some source \<Rightarrow>
                    (let evs1 = evs @ [Ifstream_read (args ! 1) (Some source)];
                         detected =
                           (if honorSettings then
                              detect_shader_settings source (Settings_ctor env, standaloneCaps) evs1
                            else ((True, Settings_ctor env, standaloneCaps), evs1))
                     in if fst (fst detected)
                        then Some (kind, source, snd (fst detected), snd detected)
                        else None))))"

text \<open>
  The events of a compiler backend whose steps all succeed, up to the close of the output,
  and what it means that the environment lets them succeed: the open is asked at the
  events before it, the conversion after the first two events, the code generation after
  the first three.
\<close>

definition compile_steps ::
  "bool \<Rightarrow> Settings \<Rightarrow> ShaderCapsRef \<Rightarrow> emitter \<Rightarrow> Kind \<Rightarrow> string \<Rightarrow> string \<Rightarrow> event list"
where
  "compile_steps permitInvalid settings caps g kind source outputPath =
     [FileOutputStream_open outputPath True, Compiler_new caps permitInvalid,
      Compiler_convertProgram kind source settings True, Compiler_emit g True]"

definition compile_succeeds ::
  "Env \<Rightarrow> bool \<Rightarrow> Settings \<Rightarrow> ShaderCapsRef \<Rightarrow> emitter \<Rightarrow> Kind \<Rightarrow> string \<Rightarrow> string
     \<Rightarrow> event list \<Rightarrow> bool"
where
  "compile_succeeds env permitInvalid settings caps g kind source outputPath evs =
     (out_isValid env evs outputPath \<and>
      convertProgram_ok env
        (evs @ take 2 (compile_steps permitInvalid settings caps g kind source outputPath))
        kind source settings \<and>
      emit_ok env
        (evs @ take 3 (compile_steps permitInvalid settings caps g kind source outputPath)) g)"

text \<open>
  The events of the \<^verbatim>\<open>.dehydrated.sksl\<close> backend from the start of the job to the close of
  the output, where the open succeeds and the base name is \<open>baseName\<close>.
\<close>

definition dehydrate_steps ::
  "Env \<Rightarrow> Kind \<Rightarrow> string \<Rightarrow> ShaderCapsRef \<Rightarrow> string \<Rightarrow> string \<Rightarrow> event list \<Rightarrow> event list"
where
  "dehydrate_steps env kind inputPath caps outputPath baseName evs =
     (let evs3 = evs @ [FileOutputStream_open outputPath True, Compiler_new caps False,
                        Compiler_loadModule kind (c_str inputPath),
                        Dehydrator_write_symbols, Dehydrator_write_elements];
          data = dehydrated_data env evs3;
          evs5 = evs3 @ [Dehydrator_finish data,
                         FileOutputStream_printf outputPath
                           ''static uint8_t SKSL_INCLUDE_%s[] = {'' [ArgS (c_str baseName)]]
      in print_bytes env outputPath data 0 evs5 @
         [FileOutputStream_printf outputPath ''};\<newline>'' [],
          FileOutputStream_printf outputPath
            (''static constexpr size_t SKSL_INCLUDE_%s_LENGTH = '' @
             ''sizeof(SKSL_INCLUDE_%s);\<newline>'')
            [ArgS (c_str baseName), ArgS (c_str baseName)]])"

text \<open>A close that fails after the events \<open>evs\<close>, the line that reports it, and the result.\<close>

definition output_error_after :: "string \<Rightarrow> event list \<Rightarrow> (fault + ResultCode) \<times> event list" where
  "output_error_after outputPath evs =
     (Inr kOutputError,
      evs @ [FileOutputStream_close outputPath False,
             Stdout_printf ''error writing '%s'\<newline>'' [ArgS (c_str outputPath)]])"

subsection \<open>A sample environment\<close>

text \<open>
  A small world to run the driver in: three special input files, a directory that cannot
  be written, a compiler that rejects one source, and output streams that close or fail
  to close as \<open>closes\<close> says.
\<close>

definition sample_settings :: Settings where
  "sample_settings =
     \<lparr>fFlipY = False, fForceHighPrecision = False, fInlineThreshold = 50,
      fSharpenTextures = False, fReplaceSettings = True\<rparr>"

definition sample_env :: "bool \<Rightarrow> Env" where
  "sample_env closes =
     \<lparr>Settings_ctor = sample_settings,
      ifstream_read = (\<lambda>evs p.
         if p = ''missing.sksl'' then None
         else if p = ''bogus.sksl'' then Some ''/*#pragma settings Bogus*/ void main() {}''
         else if p = ''broken.sksl'' then Some ''void main() { x = ; }''
         else Some ''/*#pragma settings NoInline*/ void main() {}''),
      out_isValid = (\<lambda>evs p. \<not> prefix ''/readonly/'' p),
      out_close = (\<lambda>evs p. closes),
      convertProgram_ok = (\<lambda>evs k source s. source \<noteq> ''void main() { x = ; }''),
      emit_ok = (\<lambda>evs g. True),
      errorText = (\<lambda>evs. ''error: 1: expected expression''),
      dehydrated_data = (\<lambda>evs. ''AB''),
      prefixAtOffset = (\<lambda>evs i. [])\<rparr>"

section \<open>Lemmas\<close>

subsection \<open>C strings and strstr\<close>

lemma c_str_decomp: "\<exists>t. s = c_str s @ t"
  unfolding c_str_def by (metis takeWhile_dropWhile_id)

lemma c_str_append_clean: "NUL \<notin> set a \<Longrightarrow> c_str (a @ b) = a @ c_str b"
  unfolding c_str_def by (rule takeWhile_append2) auto

lemma c_str_append_cut: "NUL \<in> set a \<Longrightarrow> c_str (a @ b) = c_str a"
  unfolding c_str_def using takeWhile_append1 [of NUL a "\<lambda>c. c \<noteq> NUL" b] by simp

lemma c_str_clean: "NUL \<notin> set a \<Longrightarrow> c_str a = a"
  using c_str_append_clean [of a "[]"] by (simp add: c_str_def)

lemma c_str_idem: "c_str (c_str s) = c_str s"
  by (simp add: c_str_def)

lemma String_eq_literal:
  "NUL \<notin> set lit \<Longrightarrow> String_eq s lit = (c_str s = lit)"
  by (simp add: String_eq_def c_str_clean)

lemma String_eq_refl [simp]: "String_eq s s"
  by (simp add: String_eq_def)

lemma String_eq_delimiter [simp]: "String_eq (c_str a) ''--'' = (c_str a = ''--'')"
  by (simp add: String_eq_literal NUL_def c_str_idem)

lemma String_eq_flags [simp]:
  "String_eq s ''--settings'' = (c_str s = ''--settings'')"
  "String_eq s ''--nosettings'' = (c_str s = ''--nosettings'')"
  by (simp_all add: String_eq_literal NUL_def)

lemma prefix_take_iff: "prefix xs ys \<longleftrightarrow> take (length xs) ys = xs"
  by (metis append_eq_conv_conj prefix_def take_is_prefix)

lemma prefix_long: "length n \<le> length a \<Longrightarrow> prefix n (a @ y) = prefix n a"
  by (simp add: prefix_take_iff)

lemma strstr_SomeD: "strstr h n = Some p \<Longrightarrow> \<exists>a. h = a @ p \<and> prefix n p"
proof (induction h)
  case Nil
  then show ?case by (simp split: if_splits)
next
  case (Cons c cs)
  show ?case
  proof (cases "prefix n (c # cs)")
    case True
    with Cons.prems show ?thesis by auto
  next
    case False
    with Cons.prems have "strstr cs n = Some p" by simp
    from Cons.IH [OF this] obtain a where "cs = a @ p" "prefix n p" by blast
    then have "c # cs = (c # a) @ p" by simp
    with \<open>prefix n p\<close> show ?thesis by blast
  qed
qed

lemma strstr_length: "strstr h n = Some p \<Longrightarrow> length p \<le> length h"
  using strstr_SomeD [of h n p] by auto

lemma strstr_c_str_sublist:
  assumes "strstr (c_str s) n = Some p"
  shows "\<exists>a r t. s = a @ n @ r @ t \<and> p = n @ r \<and> c_str s = a @ n @ r"
proof -
  from strstr_SomeD [OF assms] obtain a where a: "c_str s = a @ p" "prefix n p" by blast
  from a(2) obtain r where r: "p = n @ r" by (auto simp: prefix_def)
  obtain t where "s = c_str s @ t" using c_str_decomp by blast
  with a r show ?thesis by auto
qed

lemma strstr_same_needle: "\<exists>e. \<forall>y. strstr (pre @ n @ y) n = Some (e @ n @ y)"
proof (induction pre)
  case Nil
  have "strstr (n @ y) n = Some (n @ y)" for y
  proof -
    have "prefix n (n @ y)" by simp
    then show ?thesis by (cases "n @ y") auto
  qed
  then have "\<forall>y. strstr ([] @ n @ y) n = Some ([] @ n @ y)" by simp
  then show ?case by blast
next
  case (Cons c cs)
  from Cons.IH obtain e where e: "\<And>y. strstr (cs @ n @ y) n = Some (e @ n @ y)" by blast
  have indep: "prefix n ((c # cs @ n) @ y) = prefix n (c # cs @ n)" for y
    by (rule prefix_long) simp
  show ?case
  proof (cases "prefix n (c # cs @ n)")
    case True
    with indep have "\<forall>y. strstr ((c # cs) @ n @ y) n = Some ((c # cs) @ n @ y)" by simp
    then show ?thesis by blast
  next
    case False
    with indep e have "\<forall>y. strstr ((c # cs) @ n @ y) n = Some (e @ n @ y)" by simp
    then show ?thesis by blast
  qed
qed

lemma strstr_terminator:
  "CHR ''*'' \<notin> set b \<Longrightarrow> strstr (b @ ''*/'' @ p) ''*/'' = Some (''*/'' @ p)"
  by (induction b) auto

subsection \<open>The marker and the text it opens\<close>

lemma len_marker: "strlen kPragmaSettings = 19"
  by (simp add: strlen_def c_str_def kPragmaSettings_def NUL_def)

lemma length_marker: "length kPragmaSettings = 19"
  by (simp add: kPragmaSettings_def)

lemma NUL_notin_marker: "NUL \<notin> set kPragmaSettings"
  by (simp add: kPragmaSettings_def NUL_def)

lemma marker_slash: "CHR ''/'' \<notin> set (tl kPragmaSettings)"
  by (simp add: kPragmaSettings_def)

lemma detect_pragma_text:
  "detect_shader_settings s st evs =
     (case pragma_text s of None \<Rightarrow> ((True, st), evs) | Some x \<Rightarrow> settings_loop x st evs)"
  by (simp add: detect_shader_settings_def pragma_text_def isolate_def Let_def split: option.splits)

lemma c_str_no_NUL: "NUL \<notin> set (c_str s)"
  unfolding c_str_def by (auto dest: set_takeWhileD)

lemma pragma_text_no_NUL:
  assumes "pragma_text s = Some x"
  shows "NUL \<notin> set x"
proof -
  from assms obtain found where f: "strstr (c_str s) kPragmaSettings = Some found"
    and i: "isolate (drop (strlen kPragmaSettings - 1) found) = Some x"
    by (auto simp: pragma_text_def split: option.splits)
  from strstr_SomeD [OF f] obtain a where "c_str s = a @ found" by blast
  then have "set found \<subseteq> set (c_str s)" by auto
  moreover from i have "set x \<subseteq> set found"
    by (auto simp: isolate_def split: option.splits dest!: in_set_takeD in_set_dropD)
  ultimately show ?thesis using c_str_no_NUL [of s] by auto
qed

lemma pragma_text_c_str: "c_str a = c_str b \<Longrightarrow> pragma_text a = pragma_text b"
  by (simp add: pragma_text_def)

lemma isolate_Cons:
  assumes "\<not> prefix ''*/'' (c # s)"
  shows "isolate (c # s) = map_option (\<lambda>t. c # t) (isolate s)"
proof (cases "strstr s ''*/''")
  case None
  with assms show ?thesis by (simp add: isolate_def)
next
  case (Some e)
  from strstr_length [OF Some] have "Suc (length s) - length e = Suc (length s - length e)"
    by simp
  with assms Some show ?thesis by (simp add: isolate_def)
qed

lemma isolate_hit: "prefix ''*/'' s \<Longrightarrow> isolate s = Some []"
  by (cases s) (auto simp: isolate_def)

lemma isolate_body:
  assumes "CHR ''*'' \<notin> set t"
  shows "isolate (a @ CHR '' '' # t @ ''*/'' @ p) =
           (if sublist ''*/'' a then isolate a else Some (a @ CHR '' '' # t))"
proof (induction a)
  case Nil
  have "strstr ((CHR '' '' # t) @ ''*/'' @ p) ''*/'' = Some (''*/'' @ p)"
    by (rule strstr_terminator) (use assms in simp)
  then show ?case by (simp add: isolate_def)
next
  case (Cons c cs)
  have same: "prefix ''*/'' ((c # cs) @ CHR '' '' # t @ ''*/'' @ p) = prefix ''*/'' (c # cs)"
    by (cases cs) auto
  show ?case
  proof (cases "prefix ''*/'' (c # cs)")
    case True
    then have "sublist ''*/'' (c # cs)" by (simp add: sublist_Cons_right)
    with True same show ?thesis by (simp add: isolate_hit)
  next
    case False
    with same have "\<not> prefix ''*/'' (c # (cs @ CHR '' '' # t @ ''*/'' @ p))" by simp
    from isolate_Cons [OF this]
    have "isolate ((c # cs) @ CHR '' '' # t @ ''*/'' @ p)
        = map_option (\<lambda>t. c # t) (isolate (cs @ CHR '' '' # t @ ''*/'' @ p))"
      by simp
    also have "\<dots> = map_option (\<lambda>t. c # t)
        (if sublist ''*/'' cs then isolate cs else Some (cs @ CHR '' '' # t))"
      by (simp only: Cons.IH)
    also have "\<dots> = (if sublist ''*/'' cs then isolate (c # cs) else Some ((c # cs) @ CHR '' '' # t))"
      by (simp add: isolate_Cons [OF False])
    also have "sublist ''*/'' cs = sublist ''*/'' (c # cs)"
      using False by (simp only: sublist_Cons_right) simp
    finally show ?thesis .
  qed
qed

text \<open>
  Whatever stands before and after a pragma whose body \<open>t\<close> has no star and no NUL, the
  text found is either one that does not depend on \<open>t\<close>, or \<open>t\<close> after a fixed beginning.
\<close>

lemma pragma_text_shape:
  "\<exists>alt. \<forall>t. CHR ''*'' \<notin> set t \<and> NUL \<notin> set t \<longrightarrow>
      pragma_text (pre @ kPragmaSettings @ t @ ''*/'' @ post) =
        (case alt of Inl fixed \<Rightarrow> fixed | Inr d \<Rightarrow> Some (d @ CHR '' '' # t))"
proof (cases "NUL \<in> set pre")
  case True
  have "pragma_text (pre @ kPragmaSettings @ t @ ''*/'' @ post) = pragma_text pre" for t
    by (rule pragma_text_c_str) (simp add: c_str_append_cut [OF True])
  then have "\<forall>t. CHR ''*'' \<notin> set t \<and> NUL \<notin> set t \<longrightarrow>
      pragma_text (pre @ kPragmaSettings @ t @ ''*/'' @ post) =
        (case Inl (pragma_text pre) of Inl fixed \<Rightarrow> fixed | Inr d \<Rightarrow> Some (d @ CHR '' '' # t))"
    by simp
  then show ?thesis by blast
next
  case False
  obtain e where e: "\<And>y. strstr (pre @ kPragmaSettings @ y) kPragmaSettings = Some (e @ kPragmaSettings @ y)"
    using strstr_same_needle [of pre kPragmaSettings] by blast
  define m where "m = ''/*#pragma settings''"
  have m: "kPragmaSettings = m @ '' ''" "length m = 18"
    by (simp_all add: m_def kPragmaSettings_def)
  define d where "d = drop 18 (e @ m)"
  have ptr: "drop (strlen kPragmaSettings - 1) (e @ kPragmaSettings @ y) = d @ CHR '' '' # y" for y
    unfolding len_marker by (simp add: d_def m)
  have body: "pragma_text (pre @ kPragmaSettings @ t @ ''*/'' @ post) =
      (if sublist ''*/'' d then isolate d else Some (d @ CHR '' '' # t))"
    if "CHR ''*'' \<notin> set t" "NUL \<notin> set t" for t
  proof -
    have "c_str (pre @ kPragmaSettings @ t @ ''*/'' @ post) = pre @ kPragmaSettings @ t @ ''*/'' @ c_str post"
      using False that(2) NUL_notin_marker
      c_str_append_clean [of "pre @ kPragmaSettings @ t @ ''*/''" post]
      by (simp add: NUL_def)
    then show ?thesis
      using e [of "t @ ''*/'' @ c_str post"] ptr [of "t @ ''*/'' @ c_str post"]
        isolate_body [OF that(1), of d "c_str post"]
      by (simp add: pragma_text_def)
  qed
  have "\<forall>t. CHR ''*'' \<notin> set t \<and> NUL \<notin> set t \<longrightarrow>
      pragma_text (pre @ kPragmaSettings @ t @ ''*/'' @ post) =
        (case (if sublist ''*/'' d then Inl (isolate d) else Inr d) of
           Inl fixed \<Rightarrow> fixed | Inr d \<Rightarrow> Some (d @ CHR '' '' # t))"
    using body by simp
  then show ?thesis by blast
qed

text \<open>No occurrence of the marker starts before a marker and ends inside it.\<close>

lemma marker_no_straddle:
  assumes "prefix kPragmaSettings (b @ kPragmaSettings @ y)" and "b \<noteq> []"
  shows "19 \<le> length b"
proof (rule ccontr)
  assume "\<not> 19 \<le> length b"
  then have k: "length b < 19" "0 < length b" using assms(2) by simp_all
  from assms(1) obtain z where z: "b @ kPragmaSettings @ y = kPragmaSettings @ z"
    by (auto simp: prefix_def)
  have "kPragmaSettings ! length b = (kPragmaSettings @ z) ! length b"
    using k by (simp add: nth_append length_marker)
  also have "\<dots> = (b @ kPragmaSettings @ y) ! length b"
    by (simp only: z)
  also have "\<dots> = CHR ''/''"
    by (simp add: nth_append kPragmaSettings_def)
  finally have "kPragmaSettings ! length b = CHR ''/''" .
  moreover have "kPragmaSettings ! length b = tl kPragmaSettings ! (length b - 1)"
    using k by (simp add: nth_tl length_marker)
  moreover have "tl kPragmaSettings ! (length b - 1) \<in> set (tl kPragmaSettings)"
    using k by (intro nth_mem) (simp add: length_marker)
  ultimately show False using marker_slash by simp
qed

lemma strstr_first_marker:
  assumes "\<not> sublist kPragmaSettings pre"
  shows "strstr (pre @ kPragmaSettings @ y) kPragmaSettings = Some (kPragmaSettings @ y)"
  using assms
proof (induction pre)
  case Nil
  have "prefix kPragmaSettings (kPragmaSettings @ y)" by simp
  then show ?case by (cases "kPragmaSettings @ y") auto
next
  case (Cons c cs)
  have "\<not> prefix kPragmaSettings ((c # cs) @ kPragmaSettings @ y)"
  proof
    assume p: "prefix kPragmaSettings ((c # cs) @ kPragmaSettings @ y)"
    from marker_no_straddle [OF p] have "length kPragmaSettings \<le> length (c # cs)"
      by (simp add: length_marker)
    from prefix_long [OF this] p have "prefix kPragmaSettings (c # cs)" by simp
    then have "sublist kPragmaSettings (c # cs)" by (simp add: sublist_Cons_right)
    with Cons.prems show False by simp
  qed
  moreover from Cons.prems have "\<not> sublist kPragmaSettings cs"
    by (simp add: sublist_Cons_right)
  ultimately show ?case using Cons.IH by simp
qed

lemma pragma_text_first:
  assumes "NUL \<notin> set pre" and "\<not> sublist kPragmaSettings pre"
    and "CHR ''*'' \<notin> set t" and "NUL \<notin> set t"
  shows "pragma_text (pre @ kPragmaSettings @ t @ ''*/'' @ post) = Some (CHR '' '' # t)"
proof -
  let ?rest = "t @ ''*/'' @ c_str post"
  have cs: "c_str (pre @ kPragmaSettings @ t @ ''*/'' @ post) = pre @ kPragmaSettings @ ?rest"
    using assms(1,4) NUL_notin_marker
      c_str_append_clean [of "pre @ kPragmaSettings @ t @ ''*/''" post]
    by (simp add: NUL_def)
  have found: "strstr (pre @ kPragmaSettings @ ?rest) kPragmaSettings = Some (kPragmaSettings @ ?rest)"
    by (rule strstr_first_marker [OF assms(2)])
  have ptr: "drop (strlen kPragmaSettings - 1) (kPragmaSettings @ ?rest) = CHR '' '' # ?rest"
    unfolding len_marker by (simp add: kPragmaSettings_def)
  have iso: "isolate (CHR '' '' # ?rest) = Some (CHR '' '' # t)"
    using isolate_body [OF assms(3), of "[]" "c_str post"] by simp
  show ?thesis
    by (simp only: pragma_text_def cs found option.case ptr iso)
qed

subsection \<open>The table of tokens\<close>

lemma pragma_table_distinct: "distinct (map fst pragma_table)"
  unfolding pragma_table_def by simp

lemma pragma_table_chars:
  "te \<in> set pragma_table \<Longrightarrow> CHR ''*'' \<notin> set (fst te) \<and> NUL \<notin> set (fst te)"
  unfolding pragma_table_def NUL_def by auto

lemma token_of_NoneD: "token_of x = None \<Longrightarrow> te \<in> set pragma_table \<Longrightarrow> \<not> suffix (fst te) x"
  unfolding token_of_def find_None_iff by blast

text \<open>
  Every token is a space and a name without spaces, so the last space of a text decides
  which token can end it: at most one does.
\<close>

lemma space_suffix_unique:
  assumes "suffix (sp # a) x" and "suffix (sp # b) x" and "sp \<notin> set a" and "sp \<notin> set b"
  shows "a = b"
proof -
  have one: "a' = b'" if "suffix (sp # a') (sp # b')" and "sp \<notin> set b'" for a' b' :: "'a list"
  proof -
    from that(1) obtain z where z: "sp # b' = z @ sp # a'" by (auto simp: suffix_def)
    show ?thesis
    proof (cases z)
      case Nil
      with z show ?thesis by simp
    next
      case (Cons c z')
      with z have "b' = z' @ sp # a'" by simp
      with that(2) show ?thesis by simp
    qed
  qed
  from suffix_same_cases [OF assms(1,2)] show ?thesis
  proof
    assume "suffix (sp # a) (sp # b)"
    then show ?thesis using one assms(4) by blast
  next
    assume "suffix (sp # b) (sp # a)"
    then have "b = a" using one assms(3) by blast
    then show ?thesis by simp
  qed
qed

lemma pragma_token_unique:
  assumes "te \<in> set pragma_table" and "te' \<in> set pragma_table"
    and "suffix (fst te) x" and "suffix (fst te') x"
  shows "te = te'"
proof -
  from pragma_table_shape [OF assms(1)] obtain a where a: "fst te = CHR '' '' # a" "CHR '' '' \<notin> set a"
    by blast
  from pragma_table_shape [OF assms(2)] obtain b where b: "fst te' = CHR '' '' # b" "CHR '' '' \<notin> set b"
    by blast
  from space_suffix_unique [of "CHR '' ''" a x b] assms(3,4) a b have "fst te = fst te'" by simp
  moreover have "(fst te, snd te) \<in> set pragma_table" "(fst te', snd te') \<in> set pragma_table"
    using assms(1,2) by simp_all
  ultimately have "snd te = snd te'"
    using pragma_table_distinct eq_key_imp_eq_value by metis
  with \<open>fst te = fst te'\<close> show ?thesis by (simp add: prod_eq_iff)
qed

lemma token_of_eq:
  assumes "te \<in> set pragma_table" and "suffix (fst te) x"
  shows "token_of x = Some te"
proof (cases "token_of x")
  case None
  from token_of_NoneD [OF None assms(1)] assms(2) show ?thesis by simp
next
  case (Some te')
  from token_of_SomeD [OF Some] have "te' \<in> set pragma_table" "suffix (fst te') x" by simp_all
  with assms have "te = te'" using pragma_token_unique by blast
  with Some show ?thesis by simp
qed

lemma tokens_chars:
  assumes "set toks \<subseteq> set pragma_table"
  shows "CHR ''*'' \<notin> set (concat (map fst toks)) \<and> NUL \<notin> set (concat (map fst toks))"
  using assms pragma_table_chars by fastforce

lemma tokens_leading_space:
  assumes "set toks \<subseteq> set pragma_table" and "toks \<noteq> []"
  shows "\<exists>t. concat (map fst toks) = CHR '' '' # t"
proof (cases toks)
  case Nil
  with assms(2) show ?thesis by simp
next
  case (Cons te rest)
  with assms(1) have "te \<in> set pragma_table" by simp
  from pragma_table_shape [OF this] Cons show ?thesis by auto
qed

subsection \<open>The loop strips tokens from the right\<close>

lemma settings_loop_unfold:
  "settings_loop x st evs = finish_pass (length x) (fold try_token pragma_table (x, st)) evs"
  by (subst settings_loop.simps) (simp add: finish_pass_def Let_def settings_pass_def unrecognized_def)

lemma rtl_result_step:
  assumes "te \<in> set pragma_table" and "suffix (fst te) x"
  shows "rtl_result x st evs
       = rtl_result (take (length x - length (fst te)) x) (apply_effect (snd te) st) evs"
proof -
  have "rtl x st = rtl (take (length x - length (fst te)) x) (apply_effect (snd te) st)"
    by (subst rtl.simps) (simp add: token_of_eq [OF assms])
  then show ?thesis by (simp add: rtl_result_def)
qed

lemma rtl_stuck:
  assumes "\<forall>te \<in> set pragma_table. \<not> suffix (fst te) x"
  shows "rtl x st = (x, st)"
proof -
  have "token_of x = None"
    using assms by (auto simp: token_of_def find_None_iff)
  then show ?thesis by (subst rtl.simps) simp
qed

lemma rtl_Nil: "rtl [] st = ([], st)"
  by (rule rtl_stuck) (auto dest: pragma_table_shape)

lemma try_token_hit:
  "suffix tok x \<Longrightarrow> try_token (tok, eff) (x, st) = (take (length x - length tok) x, apply_effect eff st)"
  by (simp add: consumeSuffix_def)

lemma try_token_miss: "\<not> suffix tok x \<Longrightarrow> try_token (tok, eff) (x, st) = (x, st)"
  by (simp add: consumeSuffix_def)

declare try_token.simps [simp del]

text \<open>
  A turn of the loop that starts in the middle of the table, on a text shorter than the
  one its turn began with, ends as \<open>rtl\<close> does; so does a turn from the top of the table.
\<close>

lemma pass_refines:
  assumes "set tbl \<subseteq> set pragma_table"
    and "length x < start \<or> (length x = start \<and> (\<forall>te \<in> set pragma_table. suffix (fst te) x \<longrightarrow> te \<in> set tbl))"
  shows "finish_pass start (fold try_token tbl (x, st)) evs = rtl_result x st evs"
  using assms
proof (induction x arbitrary: tbl start st rule: length_induct)
  case (1 x)
  have shorter: "finish_pass start' (fold try_token tbl' (x', st')) evs = rtl_result x' st' evs"
    if "length x' < length x" "set tbl' \<subseteq> set pragma_table" "length x' < start'" for x' tbl' start' st'
    using 1(1) that by blast
  have hit: "finish_pass start' (fold try_token ((tok, eff) # tbl') (x, st')) evs = rtl_result x st' evs"
    if "set ((tok, eff) # tbl') \<subseteq> set pragma_table" "suffix tok x" "length x \<le> start'"
    for tok eff tbl' start' st'
  proof -
    from that(1) have mem: "(tok, eff) \<in> set pragma_table" and sub: "set tbl' \<subseteq> set pragma_table"
      by simp_all
    from token_of_eq [OF mem] that(2) have "token_of x = Some (tok, eff)" by simp
    from token_of_shortens [OF this] have lt: "length (take (length x - length tok) x) < length x"
      by simp
    have "finish_pass start' (fold try_token ((tok, eff) # tbl') (x, st')) evs
        = finish_pass start' (fold try_token tbl' (take (length x - length tok) x, apply_effect eff st')) evs"
      by (simp add: try_token_hit [OF that(2)])
    also have "\<dots> = rtl_result (take (length x - length tok) x) (apply_effect eff st') evs"
      using shorter [OF lt sub, of start'] lt that(3) by simp
    also have "\<dots> = rtl_result x st' evs"
      using rtl_result_step [OF mem, of x st' evs] that(2) by simp
    finally show ?thesis .
  qed
  have eq_case: "finish_pass (length x) (fold try_token tbl' (x, st')) evs = rtl_result x st' evs"
    if "set tbl' \<subseteq> set pragma_table" "\<forall>te \<in> set pragma_table. suffix (fst te) x \<longrightarrow> te \<in> set tbl'"
    for tbl' st'
    using that
  proof (induction tbl')
    case Nil
    then have "rtl x st' = (x, st')" by (auto intro: rtl_stuck)
    then show ?case by (auto simp: finish_pass_def rtl_result_def)
  next
    case (Cons te tbl')
    obtain tok eff where te: "te = (tok, eff)" by (cases te)
    show ?case
    proof (cases "suffix tok x")
      case True
      with Cons.prems(1) te show ?thesis using hit [of tok eff tbl' "length x" st'] by simp
    next
      case False
      with Cons.prems te have "\<forall>t \<in> set pragma_table. suffix (fst t) x \<longrightarrow> t \<in> set tbl'"
        by auto
      with Cons.IH Cons.prems(1) have "finish_pass (length x) (fold try_token tbl' (x, st')) evs = rtl_result x st' evs"
        by simp
      with False te show ?thesis by (simp add: try_token_miss)
    qed
  qed
  have loop: "settings_loop x st' evs = rtl_result x st' evs" for st'
    using eq_case [of pragma_table st'] by (simp add: settings_loop_unfold)
  have lt_case: "finish_pass start' (fold try_token tbl' (x, st')) evs = rtl_result x st' evs"
    if "set tbl' \<subseteq> set pragma_table" "length x < start'" for tbl' start' st'
    using that
  proof (induction tbl')
    case Nil
    show ?case
    proof (cases "x = []")
      case True
      with rtl_Nil [of st'] show ?thesis by (simp add: finish_pass_def rtl_result_def)
    next
      case False
      with Nil show ?thesis by (simp add: finish_pass_def loop)
    qed
  next
    case (Cons te tbl')
    obtain tok eff where te: "te = (tok, eff)" by (cases te)
    show ?case
    proof (cases "suffix tok x")
      case True
      with Cons.prems te show ?thesis using hit [of tok eff tbl' start' st'] by simp
    next
      case False
      with Cons te show ?thesis by (simp add: try_token_miss)
    qed
  qed
  from 1(2,3) show ?case using eq_case lt_case by blast
qed

lemma settings_loop_rtl: "settings_loop x st evs = rtl_result x st evs"
  using pass_refines [of pragma_table x "length x" st evs]
  by (simp add: settings_loop_unfold)

lemma rtl_append_token:
  assumes "te \<in> set pragma_table"
  shows "rtl (x @ fst te) st = rtl x (apply_effect (snd te) st)"
proof -
  have "token_of (x @ fst te) = Some te"
    by (rule token_of_eq [OF assms]) (simp add: suffix_def)
  then show ?thesis by (subst rtl.simps) simp
qed

lemma rtl_tokens:
  assumes "set toks \<subseteq> set pragma_table"
  shows "rtl (x @ concat (map fst toks)) st = rtl x (apply_tokens toks st)"
  using assms
proof (induction toks arbitrary: st rule: rev_induct)
  case Nil
  show ?case by (simp add: apply_tokens_def)
next
  case (snoc te toks)
  then have te: "te \<in> set pragma_table" and toks: "set toks \<subseteq> set pragma_table" by simp_all
  have "rtl (x @ concat (map fst (toks @ [te]))) st = rtl ((x @ concat (map fst toks)) @ fst te) st"
    by simp
  also have "\<dots> = rtl (x @ concat (map fst toks)) (apply_effect (snd te) st)"
    by (rule rtl_append_token [OF te])
  also have "\<dots> = rtl x (apply_tokens toks (apply_effect (snd te) st))"
    by (rule snoc.IH [OF toks])
  finally show ?case by (simp add: apply_tokens_def)
qed

lemma settings_loop_tokens:
  assumes "set toks \<subseteq> set pragma_table"
  shows "settings_loop (concat (map fst toks)) st evs = ((True, apply_tokens toks st), evs)"
  using rtl_tokens [OF assms, of "[]" st]
  by (simp add: settings_loop_rtl rtl_result_def rtl_Nil)

lemma consumed_append_token:
  assumes "te \<in> set pragma_table"
  shows "consumed (x @ fst te) = te # consumed x"
proof -
  have "token_of (x @ fst te) = Some te"
    by (rule token_of_eq [OF assms]) (simp add: suffix_def)
  then show ?thesis by (subst consumed.simps) simp
qed

lemma consumed_tokens:
  assumes "set toks \<subseteq> set pragma_table"
  shows "consumed (x @ concat (map fst toks)) = rev toks @ consumed x"
  using assms
proof (induction toks rule: rev_induct)
  case Nil
  show ?case by simp
next
  case (snoc te toks)
  then have te: "te \<in> set pragma_table" and toks: "set toks \<subseteq> set pragma_table" by simp_all
  have "consumed (x @ concat (map fst (toks @ [te]))) = consumed ((x @ concat (map fst toks)) @ fst te)"
    by simp
  also have "\<dots> = te # consumed (x @ concat (map fst toks))"
    by (rule consumed_append_token [OF te])
  finally show ?case using snoc.IH [OF toks] by simp
qed

lemma consumed_Nil: "consumed [] = []"
proof -
  have "token_of [] = None"
    by (auto simp: token_of_def find_None_iff dest: pragma_table_shape)
  then show ?thesis by (subst consumed.simps) simp
qed

lemma rtl_consumed:
  "snd (rtl x st) = foldl (\<lambda>s te. apply_effect (snd te) s) st (consumed x)"
proof (induction x st rule: rtl.induct)
  case (1 x st)
  show ?case
  proof (cases "token_of x")
    case None
    then show ?thesis
      by (subst rtl.simps, subst consumed.simps) simp
  next
    case (Some te)
    with 1 show ?thesis
      by (subst rtl.simps, subst consumed.simps) simp
  qed
qed

lemma snd_apply_effect:
  "snd (apply_effect e st) = (case selected e of Some b \<Rightarrow> b | None \<Rightarrow> snd st)"
  by (cases e; cases st) simp_all

lemma snd_apply_tokens:
  "snd (apply_tokens toks st) = (case selectors toks of [] \<Rightarrow> snd st | b # bs \<Rightarrow> b)"
proof (induction toks)
  case Nil
  show ?case by (simp add: apply_tokens_def selectors_def)
next
  case (Cons te toks)
  then show ?case
    by (cases "selected (snd te)")
       (simp_all add: apply_tokens_def selectors_def snd_apply_effect)
qed

lemma snd_foldl_effects:
  "snd (foldl (\<lambda>s te. apply_effect (snd te) s) st tes) =
     (if selectors tes = [] then snd st else last (selectors tes))"
proof (induction tes arbitrary: st)
  case Nil
  show ?case by (simp add: selectors_def)
next
  case (Cons te tes)
  show ?case
    using Cons.IH [of "apply_effect (snd te) st"]
    by (cases "selected (snd te)") (simp_all add: selectors_def snd_apply_effect)
qed

subsection \<open>A turn of the loop that makes no progress\<close>

lemma settings_pass_stuck:
  assumes "length (fst (fold try_token tbl (x, st))) = length x" and "set tbl \<subseteq> set pragma_table"
  shows "fold try_token tbl (x, st) = (x, st)"
  using assms
proof (induction tbl arbitrary: x st)
  case Nil
  show ?case by simp
next
  case (Cons te tbl)
  obtain tok eff where te: "te = (tok, eff)" by (cases te)
  show ?case
  proof (cases "suffix tok x")
    case True
    from Cons.prems(2) te have "(tok, eff) \<in> set pragma_table" by simp
    from pragma_table_shape [OF this] have "tok \<noteq> []" by auto
    with True have "length (take (length x - length tok) x) < length x"
      using suffix_length_le [OF True] by (cases tok) simp_all
    moreover have "length (fst (fold try_token tbl (take (length x - length tok) x, apply_effect eff st)))
        \<le> length (take (length x - length tok) x)"
      using fold_try_token_length [of tbl "(take (length x - length tok) x, apply_effect eff st)"] by simp
    ultimately have "length (fst (fold try_token (te # tbl) (x, st))) < length x"
      using True te by (simp add: try_token_hit)
    with Cons.prems(1) show ?thesis by simp
  next
    case False
    with Cons te show ?thesis by (simp add: try_token_miss)
  qed
qed

lemma try_token_prefix: "prefix (fst (try_token te s)) (fst s)"
  by (cases te; cases s) (simp add: try_token.simps consumeSuffix_def take_is_prefix)

lemma fold_try_token_prefix: "prefix (fst (fold try_token tbl s)) (fst s)"
proof (induction tbl arbitrary: s)
  case Nil
  show ?case by simp
next
  case (Cons te tbl)
  have "prefix (fst (fold try_token tbl (try_token te s))) (fst (try_token te s))"
    by (rule Cons.IH)
  also have "prefix (fst (try_token te s)) (fst s)"
    by (rule try_token_prefix)
  finally show ?case by simp
qed

lemma funpow_settings_pass_prefix: "prefix (fst ((settings_pass ^^ n) s)) (fst s)"
proof (induction n)
  case 0
  show ?case by simp
next
  case (Suc n)
  have "prefix (fst (settings_pass ((settings_pass ^^ n) s))) (fst ((settings_pass ^^ n) s))"
    unfolding settings_pass_def by (rule fold_try_token_prefix)
  with Suc show ?case by (auto intro: prefix_order.trans)
qed

lemma settings_pass_no_progress:
  "fst (settings_pass (r, st)) = r \<Longrightarrow> settings_pass (r, st) = (r, st)"
  using settings_pass_stuck [of pragma_table r st] by (simp add: settings_pass_def)

lemma settings_pass_Nil: "settings_pass ([], st) = ([], st)"
  using settings_pass_length [of "([], st)"] settings_pass_no_progress [of "[]" st] by simp

lemma funpow_fixed: "f a = a \<Longrightarrow> (f ^^ n) a = a"
  by (induction n) simp_all

lemma settings_loop_stuck:
  assumes "(settings_pass ^^ n) (x, st) = (r, st')" and "r \<noteq> []" and "fst (settings_pass (r, st')) = r"
  shows "settings_loop x st evs = ((False, st'), evs @ [unrecognized r])"
  using assms(1)
proof (induction n arbitrary: x st)
  case 0
  then have "x = r" "st = st'" by simp_all
  with assms(2,3) settings_pass_no_progress [OF assms(3)] show ?case
    by (subst settings_loop.simps) (simp add: Let_def unrecognized_def)
next
  case (Suc n)
  obtain x1 st1 where p: "settings_pass (x, st) = (x1, st1)" by (cases "settings_pass (x, st)")
  from Suc.prems have rest: "(settings_pass ^^ n) (x1, st1) = (r, st')"
    by (simp add: funpow_swap1 p)
  show ?case
  proof (cases "x1 = []")
    case True
    with rest settings_pass_Nil have "(r, st') = ([], st1)"
      using funpow_fixed [of settings_pass "([], st1)" n] by simp
    with assms(2) show ?thesis by simp
  next
    case False
    show ?thesis
    proof (cases "length x1 = length x")
      case True
      with p have "settings_pass (x, st) = (x, st)"
        using settings_pass_stuck [of pragma_table x st] by (simp add: settings_pass_def)
      with p rest have "(r, st') = (x, st)" "x1 = x" "st1 = st"
        using funpow_fixed [of settings_pass "(x, st)" n] by simp_all
      with p False show ?thesis
        by (subst settings_loop.simps) (simp add: Let_def unrecognized_def)
    next
      case neq: False
      have "settings_loop x st evs = settings_loop x1 st1 evs"
        using p False neq by (subst settings_loop.simps) (simp add: Let_def)
      with Suc.IH [OF rest] show ?thesis by simp
    qed
  qed
qed

subsection \<open>The events a job appends\<close>

lemma print_bytes_extends:
  "\<exists>tr. print_bytes env p data i evs = evs @ tr \<and> \<not> list_ex close_failed tr \<and> \<not> list_ex step_failed tr"
proof (induction data arbitrary: i evs)
  case Nil
  show ?case by simp
next
  case (Cons b bs)
  let ?e = "FileOutputStream_printf p ''%s%d,'' [ArgS (c_str (prefixAtOffset env evs i)), ArgD (of_char b)]"
  from Cons.IH [of "Suc i" "evs @ [?e]"] obtain tr where
    "print_bytes env p bs (Suc i) (evs @ [?e]) = (evs @ [?e]) @ tr"
    "\<not> list_ex close_failed tr" "\<not> list_ex step_failed tr" by blast
  then have "print_bytes env p (b # bs) i evs = evs @ (?e # tr) \<and>
      \<not> list_ex close_failed (?e # tr) \<and> \<not> list_ex step_failed (?e # tr)"
    by simp
  then show ?case by blast
qed

lemma detect_extends:
  "\<exists>tr. snd (detect_shader_settings s st evs) = evs @ tr
       \<and> \<not> list_ex close_failed tr \<and> \<not> list_ex step_failed tr"
proof (cases "pragma_text s")
  case None
  then show ?thesis by (simp add: detect_pragma_text)
next
  case (Some x)
  show ?thesis
  proof (cases "fst (rtl x st) = []")
    case True
    with Some show ?thesis by (simp add: detect_pragma_text settings_loop_rtl rtl_result_def)
  next
    case False
    with Some have "snd (detect_shader_settings s st evs) = evs @ [unrecognized (fst (rtl x st))]"
      by (simp add: detect_pragma_text settings_loop_rtl rtl_result_def)
    then show ?thesis by (auto simp: unrecognized_def)
  qed
qed

lemma compile_to_close:
  assumes "compile_to env f adj gen kind s st p evs = (r, evs @ tr)"
    and "list_ex close_failed tr" and "\<not> list_ex step_failed tr"
  shows "r = Inr kOutputError"
  using assms
  by (auto simp: compile_to_def Let_def error_writing_def emitCompileError_def
           split: if_splits sum.splits)

lemma compile_to_extends: "\<exists>tr. snd (compile_to env f adj gen kind s st p evs) = evs @ tr"
  by (auto simp: compile_to_def Let_def error_writing_def emitCompileError_def split: sum.splits)

lemma dehydrate_to_close:
  assumes "dehydrate_to env kind inp st p evs = (r, evs @ tr)"
    and "list_ex close_failed tr" and "\<not> list_ex step_failed tr"
  shows "r = Inr kOutputError"
proof (cases "out_isValid env evs p")
  case False
  with assms show ?thesis by (auto simp: dehydrate_to_def Let_def error_writing_def)
next
  case True
  show ?thesis
  proof (cases "base_name inp [] ''.sksl''")
    case (Inl f)
    with True assms show ?thesis by (auto simp: dehydrate_to_def Let_def)
  next
    case (Inr b)
    let ?evs3 = "evs @ [FileOutputStream_open p True, Compiler_new (snd st) False,
        Compiler_loadModule kind (c_str inp), Dehydrator_write_symbols, Dehydrator_write_elements]"
    let ?evs5 = "?evs3 @ [Dehydrator_finish (dehydrated_data env ?evs3),
        FileOutputStream_printf p ''static uint8_t SKSL_INCLUDE_%s[] = {'' [ArgS (c_str b)]]"
    from print_bytes_extends [of env p "dehydrated_data env ?evs3" 0 ?evs5] obtain tr' where
      "print_bytes env p (dehydrated_data env ?evs3) 0 ?evs5 = ?evs5 @ tr'"
      "\<not> list_ex close_failed tr'" "\<not> list_ex step_failed tr'" by blast
    with assms True Inr show ?thesis
      by (auto simp: dehydrate_to_def Let_def error_writing_def split: if_splits)
  qed
qed

lemma dehydrate_to_extends: "\<exists>tr. snd (dehydrate_to env kind inp st p evs) = evs @ tr"
proof (cases "base_name inp [] ''.sksl''")
  case (Inl f)
  then show ?thesis by (auto simp: dehydrate_to_def Let_def error_writing_def)
next
  case (Inr b)
  let ?evs3 = "evs @ [FileOutputStream_open p (out_isValid env evs p), Compiler_new (snd st) False,
        Compiler_loadModule kind (c_str inp), Dehydrator_write_symbols, Dehydrator_write_elements]"
  let ?evs5 = "?evs3 @ [Dehydrator_finish (dehydrated_data env ?evs3),
        FileOutputStream_printf p ''static uint8_t SKSL_INCLUDE_%s[] = {'' [ArgS (c_str b)]]"
  from print_bytes_extends [of env p "dehydrated_data env ?evs3" 0 ?evs5] obtain tr where
    "print_bytes env p (dehydrated_data env ?evs3) 0 ?evs5 = ?evs5 @ tr" by blast
  with Inr show ?thesis
    by (auto simp: dehydrate_to_def Let_def error_writing_def)
qed

lemma route_close:
  assumes "route env kind inp s st p evs = (r, evs @ tr)"
    and "list_ex close_failed tr" and "\<not> list_ex step_failed tr"
  shows "r = Inr kOutputError"
  using assms compile_to_close dehydrate_to_close
  by (auto simp: route_def split: if_splits)

lemma route_extends: "\<exists>tr. snd (route env kind inp s st p evs) = evs @ tr"
  using compile_to_extends dehydrate_to_extends by (auto simp: route_def)

subsection \<open>The loop of main\<close>

lemma segments_ne: "segments as \<noteq> []"
  by (induction as) auto

lemma main_loop_Cons:
  "main_loop env (a # rest) args resultCode evs =
     (if c_str a \<noteq> ''--'' then main_loop env rest (args @ [c_str a]) resultCode evs
      else if length args > 1 then
        (case processCommand env args evs of
           (Inl f, evs') \<Rightarrow> (Inl f, evs')
         | (Inr outcome, evs') \<Rightarrow>
             main_loop env rest (take 1 args) (std_max resultCode outcome) evs')
      else main_loop env rest args resultCode evs)"
  by (simp add: Let_def)

declare main_loop.simps(2) [simp del]
declare main_loop_Cons [simp]

lemma main_loop_jobs:
  "main_finish env (main_loop env rest (a0 # cur) rc evs) =
   reduce_from rc
     (run_jobs env
        (map (\<lambda>seg. a0 # seg)
           (filter (\<lambda>seg. seg \<noteq> [])
              ((cur @ hd (segments (map c_str rest))) # tl (segments (map c_str rest)))))
        evs)"
proof (induction rest arbitrary: cur rc evs)
  case Nil
  show ?case
    by (cases "processCommand env (a0 # cur) evs" ; cases "fst (processCommand env (a0 # cur) evs)")
       (auto simp: main_finish_def reduce_from_def split: sum.splits prod.splits)
next
  case (Cons a rest)
  obtain s ss where seg: "segments (map c_str rest) = s # ss"
    using segments_ne [of "map c_str rest"] by (cases "segments (map c_str rest)") auto
  show ?case
  proof (cases "c_str a = ''--''")
    case False
    have "main_loop env (a # rest) (a0 # cur) rc evs = main_loop env rest (a0 # (cur @ [c_str a])) rc evs"
      using False by simp
    then show ?thesis using False seg Cons.IH [of "cur @ [c_str a]" rc evs] by simp
  next
    case True
    show ?thesis
    proof (cases cur)
      case Nil
      then have "main_loop env (a # rest) (a0 # cur) rc evs = main_loop env rest (a0 # []) rc evs"
        using True by simp
      then show ?thesis using True Nil seg Cons.IH [of "[]" rc evs] by simp
    next
      case (Cons c cs)
      obtain r e where pc: "processCommand env (a0 # cur) evs = (r, e)"
        by (cases "processCommand env (a0 # cur) evs")
      show ?thesis
      proof (cases r)
        case (Inl f)
        with pc True Cons show ?thesis
          by (simp add: main_finish_def reduce_from_def)
      next
        case (Inr outcome)
        with pc True Cons have "main_loop env (a # rest) (a0 # cur) rc evs
            = main_loop env rest (a0 # []) (std_max rc outcome) e"
          by simp
        with Cons.IH [of "[]" "std_max rc outcome" e] pc True Cons Inr seg
        show ?thesis
          by (simp add: reduce_from_def split: prod.splits sum.splits)
      qed
    qed
  qed
qed

lemma result_int_std_max: "result_int (std_max a b) = max (result_int a) (result_int b)"
  by (simp add: std_max_def)

lemma result_int_foldl:
  "result_int (foldl std_max rc outcomes) = Max (insert (result_int rc) (result_int ` set outcomes))"
proof (induction outcomes arbitrary: rc)
  case Nil
  show ?case by simp
next
  case (Cons x xs)
  have "Max (insert (result_int (std_max rc x)) (result_int ` set xs))
      = Max (insert (result_int rc) (insert (result_int x) (result_int ` set xs)))"
    by (cases "xs = []") (simp_all add: result_int_std_max max.assoc)
  with Cons.IH [of "std_max rc x"] show ?case by simp
qed

subsection \<open>Input suffixes exclude one another\<close>

lemma not_both_suffix:
  "suffix a p \<Longrightarrow> \<not> suffix a b \<Longrightarrow> \<not> suffix b a \<Longrightarrow> \<not> suffix b p"
  using suffix_same_cases by blast

lemma resolve_vert: "suffix ''.vert'' p \<Longrightarrow> resolve_kind p = Some kVertex_Kind"
  by (simp add: resolve_kind_def endsWith_def)

lemma resolve_frag: "suffix ''.frag'' p \<Longrightarrow> resolve_kind p = Some kFragment_Kind"
  using not_both_suffix [of "''.frag''" p "''.vert''"]
  by (simp add: resolve_kind_def endsWith_def suffix_to_prefix)

lemma resolve_sksl: "suffix ''.sksl'' p \<Longrightarrow> resolve_kind p = Some kFragment_Kind"
  using not_both_suffix [of "''.sksl''" p "''.vert''"]
  by (simp add: resolve_kind_def endsWith_def suffix_to_prefix)

lemma resolve_geom: "suffix ''.geom'' p \<Longrightarrow> resolve_kind p = Some kGeometry_Kind"
  using not_both_suffix [of "''.geom''" p "''.vert''"]
    not_both_suffix [of "''.geom''" p "''.frag''"]
    not_both_suffix [of "''.geom''" p "''.sksl''"]
  by (simp add: resolve_kind_def endsWith_def suffix_to_prefix)

lemma resolve_fp: "suffix ''.fp'' p \<Longrightarrow> resolve_kind p = Some kFragmentProcessor_Kind"
  using not_both_suffix [of "''.fp''" p "''.vert''"]
    not_both_suffix [of "''.fp''" p "''.frag''"]
    not_both_suffix [of "''.fp''" p "''.sksl''"]
    not_both_suffix [of "''.fp''" p "''.geom''"]
  by (simp add: resolve_kind_def endsWith_def suffix_to_prefix)

lemma resolve_stage: "suffix ''.stage'' p \<Longrightarrow> resolve_kind p = Some kPipelineStage_Kind"
  using not_both_suffix [of "''.stage''" p "''.vert''"]
    not_both_suffix [of "''.stage''" p "''.frag''"]
    not_both_suffix [of "''.stage''" p "''.sksl''"]
    not_both_suffix [of "''.stage''" p "''.geom''"]
    not_both_suffix [of "''.stage''" p "''.fp''"]
  by (simp add: resolve_kind_def endsWith_def suffix_to_prefix)

lemma resolve_none: "\<not> recognized_input p \<Longrightarrow> resolve_kind p = None"
  by (simp add: resolve_kind_def endsWith_def recognized_input_def)

subsection \<open>base_name on file names\<close>

text \<open>
  On a path without NUL the loop of \<open>base_name\<close> stops at the start of the file name, and the
  two calls of \<^verbatim>\<open>strncmp\<close> are the tests for a prefix and for a suffix.
\<close>

lemma String_eq_drop:
  assumes "NUL \<notin> set p" and "Suc i \<le> length p"
  shows "\<not> String_eq p (drop (Suc i) p)"
proof
  assume "String_eq p (drop (Suc i) p)"
  then have "c_str p = c_str (drop (Suc i) p)" by (simp only: String_eq_def)
  moreover have "NUL \<notin> set (drop (Suc i) p)" using assms(1) by (auto dest: in_set_dropD)
  then have "c_str (drop (Suc i) p) = drop (Suc i) p" by (rule c_str_clean)
  moreover have "c_str p = p" using assms(1) by (rule c_str_clean)
  ultimately have "length p = length (drop (Suc i) p)" by (simp only:)
  moreover have "length (drop (Suc i) p) < length p" using assms(2) by simp
  ultimately show False by linarith
qed

lemma find_fileName_spec:
  "NUL \<notin> set p \<Longrightarrow> i \<le> length p \<Longrightarrow>
     find_fileName p i = i - length (takeWhile (\<lambda>c. \<not> is_slash c) (rev (take i p)))"
proof (induction i)
  case 0
  show ?case by simp
next
  case (Suc i)
  from Suc.prems have i: "i < length p" by simp
  have ne: "\<not> String_eq p (drop (Suc i) p)"
    using String_eq_drop Suc.prems by blast
  have tk: "rev (take (Suc i) p) = p ! i # rev (take i p)"
    using i by (simp add: take_Suc_conv_app_nth)
  have le: "length (takeWhile (\<lambda>c. \<not> is_slash c) (rev (take i p))) \<le> i"
    using length_takeWhile_le [of "\<lambda>c. \<not> is_slash c" "rev (take i p)"] i by simp
  show ?case
  proof (cases "is_slash (p ! i)")
    case True
    then show ?thesis using ne tk by (auto simp: is_slash_def)
  next
    case False
    then have "find_fileName p (Suc i) = find_fileName p i"
      using ne by (auto simp: is_slash_def)
    also have "\<dots> = i - length (takeWhile (\<lambda>c. \<not> is_slash c) (rev (take i p)))"
      using Suc by simp
    finally show ?thesis using False tk le by simp
  qed
qed

lemma length_file_part: "length (file_part p) \<le> length p"
  using length_takeWhile_le [of "\<lambda>c. \<not> is_slash c" "rev p"] by (simp add: file_part_def)

lemma find_fileName_file_part:
  "NUL \<notin> set p \<Longrightarrow> find_fileName p (length p) = length p - length (file_part p)"
  by (simp add: find_fileName_spec file_part_def)

lemma file_part_drop: "drop (length p - length (file_part p)) p = file_part p"
proof -
  let ?tw = "takeWhile (\<lambda>c. \<not> is_slash c) (rev p)" and ?dw = "dropWhile (\<lambda>c. \<not> is_slash c) (rev p)"
  have "rev p = ?tw @ ?dw" by simp
  then have "p = rev ?dw @ rev ?tw" by (metis rev_append rev_rev_ident)
  moreover have "length ?tw + length ?dw = length p"
    by (metis length_append length_rev takeWhile_dropWhile_id)
  then have "length p - length (file_part p) = length (rev ?dw)"
    by (simp add: file_part_def)
  ultimately show ?thesis
    by (metis append_eq_conv_conj file_part_def)
qed


lemma suffix_file_part:
  assumes "suffix s p" and "\<forall>c\<in>set s. \<not> is_slash c"
  shows "suffix s (file_part p)"
proof -
  from assms(1) obtain z where "p = z @ s" by (auto simp: suffix_def)
  then have "rev p = rev s @ rev z" by simp
  moreover have "takeWhile (\<lambda>c. \<not> is_slash c) (rev s @ rev z)
      = rev s @ takeWhile (\<lambda>c. \<not> is_slash c) (rev z)"
    using assms(2) by (intro takeWhile_append2) simp
  ultimately have "file_part p = rev (takeWhile (\<lambda>c. \<not> is_slash c) (rev z)) @ s"
    by (simp add: file_part_def)
  then show ?thesis by (simp add: suffix_def)
qed

lemma strlen_clean: "NUL \<notin> set s \<Longrightarrow> strlen s = length s"
  by (simp add: strlen_def c_str_clean)

lemma strncmp_prefix:
  "NUL \<notin> set a \<Longrightarrow> NUL \<notin> set b \<Longrightarrow> strncmp_eq a b (strlen b) = prefix b a"
  by (simp add: strncmp_eq_def strlen_clean c_str_clean prefix_take_iff)

lemma strncmp_suffix:
  assumes "NUL \<notin> set suf"
  shows "strncmp_eq (drop (length p - strlen suf) p) suf (strlen suf) = suffix suf p"
proof -
  let ?n = "length suf" and ?r = "drop (length p - length suf) p"
  have len: "strlen suf = ?n" using assms by (rule strlen_clean)
  have cs: "take ?n (c_str suf) = suf" using assms by (simp add: c_str_clean)
  show ?thesis
  proof (cases "suffix suf p")
    case True
    then obtain z where "p = z @ suf" by (auto simp: suffix_def)
    then have "?r = suf" by simp
    with True show ?thesis using assms by (simp add: strncmp_eq_def len c_str_clean)
  next
    case False
    have "take ?n (c_str ?r) \<noteq> suf"
    proof
      assume eq: "take ?n (c_str ?r) = suf"
      then have "length (take ?n (c_str ?r)) = ?n" by simp
      then have ge: "?n \<le> length (c_str ?r)" by simp
      have "length (c_str ?r) \<le> length ?r"
        unfolding c_str_def by (rule length_takeWhile_le)
      with ge have lr: "?n \<le> length ?r" by simp
      then have "length ?r = ?n" by simp
      with ge \<open>length (c_str ?r) \<le> length ?r\<close> have "length (c_str ?r) = length ?r" by simp
      moreover obtain t where "?r = c_str ?r @ t" using c_str_decomp by blast
      ultimately have "c_str ?r = ?r" by (metis append_eq_conv_conj take_all_iff le_refl)
      with eq \<open>length ?r = ?n\<close> have "?r = suf" by simp
      then have "suffix suf p" using suffix_drop [of "length p - length suf" p] by simp
      with False show False by simp
    qed
    with False show ?thesis by (simp add: strncmp_eq_def len cs)
  qed
qed

lemma base_name_spec:
  assumes "NUL \<notin> set p" and "NUL \<notin> set pre" and "NUL \<notin> set suf"
  shows "base_name p pre suf =
     (if prefix pre (file_part p) \<and> suffix suf p then
        if length (file_part p) < length pre + length suf then Inl LengthError
        else Inr (take (length (file_part p) - length pre - length suf)
                    (drop (length pre) (file_part p)))
      else Inr [])"
proof -
  let ?k = "length p - length (file_part p)"
  have k: "find_fileName p (length p) = ?k" using assms(1) by (rule find_fileName_file_part)
  have fp: "NUL \<notin> set (file_part p)" using assms(1) by (auto simp: file_part_def dest: set_takeWhileD)
  have pre: "strncmp_eq (drop ?k p) pre (length pre) = prefix pre (file_part p)"
    using strncmp_prefix [OF fp assms(2)] by (simp add: file_part_drop strlen_clean [OF assms(2)])
  have suf: "strncmp_eq (drop (length p - length suf) p) suf (length suf) = suffix suf p"
    using strncmp_suffix [OF assms(3), of p] by (simp add: strlen_clean [OF assms(3)])
  have d: "drop (?k + length pre) p = drop (length pre) (file_part p)"
    using file_part_drop [of p] by (metis add.commute drop_drop)
  have l: "length p - ?k = length (file_part p)" using length_file_part [of p] by simp
  have lt: "(length p < ?k + length pre + length suf) = (length (file_part p) < length pre + length suf)"
    using length_file_part [of p] by auto
  show ?thesis
    by (simp only: base_name_def Let_def k strlen_clean [OF assms(2)] strlen_clean [OF assms(3)]
          pre suf d l lt)
qed



lemma base_name_Gr_fp_total: "\<exists>b. base_name (c_str inp) ''Gr'' ''.fp'' = Inr b"
proof -
  let ?q = "c_str inp" and ?f = "file_part (c_str inp)"
  have q: "NUL \<notin> set ?q" by (rule c_str_no_NUL)
  have "\<not> (prefix ''Gr'' ?f \<and> suffix ''.fp'' ?q \<and> length ?f < 5)"
  proof
    assume a: "prefix ''Gr'' ?f \<and> suffix ''.fp'' ?q \<and> length ?f < 5"
    then have "suffix ''.fp'' ?f" by (intro suffix_file_part) (simp_all add: is_slash_def)
    then obtain z where z: "?f = z @ ''.fp''" by (auto simp: suffix_def)
    with a have "length z < 2" by simp
    then consider "z = []" | c where "z = [c]"
      by (cases z; cases "tl z") auto
    then show False using a z by cases auto
  qed
  then show ?thesis
    using base_name_spec [OF q, of "''Gr''" "''.fp''"] by (auto simp: NUL_def)
qed

lemma base_name_sksl_total:
  assumes "NUL \<notin> set inp"
  shows "\<exists>b. base_name inp [] ''.sksl'' = Inr b"
proof -
  have "\<not> (suffix ''.sksl'' inp \<and> length (file_part inp) < 5)"
  proof
    assume a: "suffix ''.sksl'' inp \<and> length (file_part inp) < 5"
    then have "suffix ''.sksl'' (file_part inp)" by (intro suffix_file_part) (simp_all add: is_slash_def)
    then have "5 \<le> length (file_part inp)" using suffix_length_le by fastforce
    with a show False by simp
  qed
  then show ?thesis
    using base_name_spec [OF assms, of "[]" "''.sksl''"] by (auto simp: NUL_def)
qed

subsection \<open>The bytes before the buffer\<close>

text \<open>
  Whatever lies before the buffer, the result is that of \<open>base_name\<close> unless the path is
  shorter than the suffix and a tail of it; so it is at both calls of the driver, where
  the file name has to start with \<^verbatim>\<open>Gr\<close> and the input path has one of the six suffixes.
\<close>

lemma strncmp_whole:
  assumes "NUL \<notin> set suf" and "length r = length suf"
  shows "strncmp_eq r suf (strlen suf) = (r = suf)"
proof -
  have len: "strlen suf = length suf" using assms(1) by (rule strlen_clean)
  have cs: "c_str suf = suf" using assms(1) by (rule c_str_clean)
  show ?thesis
  proof (cases "r = suf")
    case True
    then show ?thesis by (simp add: strncmp_eq_def)
  next
    case False
    have "take (length suf) (c_str r) \<noteq> suf"
    proof
      assume eq: "take (length suf) (c_str r) = suf"
      then have "length (take (length suf) (c_str r)) = length suf" by simp
      then have ge: "length suf \<le> length (c_str r)" by simp
      have "length (c_str r) \<le> length r"
        unfolding c_str_def by (rule length_takeWhile_le)
      with ge assms(2) have "length (c_str r) = length r" by simp
      moreover obtain t where "r = c_str r @ t" using c_str_decomp by blast
      ultimately have "c_str r = r" by (metis append_eq_conv_conj take_all_iff le_refl)
      with eq assms(2) have "r = suf" by simp
      with False show False by simp
    qed
    with False show ?thesis by (simp add: strncmp_eq_def len cs)
  qed
qed

lemma base_name_at_eq:
  assumes "NUL \<notin> set suf" and "\<not> (length p < length suf \<and> suffix p suf)"
  shows "base_name_at before p pre suf = base_name p pre suf"
proof (cases "length p < length suf")
  case False
  then show ?thesis
    using assms(1) by (simp add: base_name_at_def base_name_def bytes_to_end_def strlen_clean)
next
  case True
  with assms(2) have ns: "\<not> suffix p suf" by simp
  let ?r = "bytes_to_end before p (length suf)"
  have r: "?r = map before (rev [0..<length suf - length p]) @ p"
    using True by (simp add: bytes_to_end_def)
  then have "length ?r = length suf" using True by simp
  from strncmp_whole [OF assms(1) this]
  have "strncmp_eq ?r suf (strlen suf) = (?r = suf)" .
  moreover have "?r \<noteq> suf"
  proof
    assume "?r = suf"
    with r have "suffix p suf" by (metis suffixI)
    with ns show False by simp
  qed
  moreover have "\<not> suffix suf p" using True suffix_length_le by fastforce
  then have "\<not> strncmp_eq (drop (length p - strlen suf) p) suf (strlen suf)"
    using strncmp_suffix [OF assms(1), of p] by simp
  ultimately show ?thesis
    using assms(1) by (simp add: base_name_at_def base_name_def strlen_clean)
qed

lemma base_name_at_Gr_fp:
  "base_name_at before (c_str inp) ''Gr'' ''.fp'' = base_name (c_str inp) ''Gr'' ''.fp''"
proof (cases "length (c_str inp) < 3 \<and> suffix (c_str inp) ''.fp''")
  case False
  then show ?thesis using base_name_at_eq [of "''.fp''" "c_str inp" before "''Gr''"]
    by (simp add: NUL_def)
next
  case True
  then have "c_str inp \<in> set (suffixes ''.fp'')" by (simp only: in_set_suffixes)
  then have "c_str inp = [] \<or> c_str inp = ''p'' \<or> c_str inp = ''fp'' \<or> c_str inp = ''.fp''"
    by simp
  with True have "c_str inp = [] \<or> c_str inp = ''p'' \<or> c_str inp = ''fp''" by auto
  moreover have "base_name_at before q ''Gr'' ''.fp'' = base_name q ''Gr'' ''.fp''"
    if "q = [] \<or> q = ''p'' \<or> q = ''fp''" for q
    using that
    by (elim disjE)
       (simp_all add: base_name_at_def base_name_def Let_def strncmp_eq_def strlen_def c_str_def
          NUL_def String_eq_def)
  ultimately show ?thesis by blast
qed

lemma base_name_at_sksl:
  assumes "recognized_input inp"
  shows "base_name_at before inp [] ''.sksl'' = base_name inp [] ''.sksl''"
proof -
  have "\<not> (length inp < 5 \<and> suffix inp ''.sksl'')"
  proof
    assume a: "length inp < 5 \<and> suffix inp ''.sksl''"
    then have "inp \<in> set (suffixes ''.sksl'')" by (simp only: in_set_suffixes)
    then have "inp = [] \<or> inp = ''l'' \<or> inp = ''sl'' \<or> inp = ''ksl'' \<or> inp = ''sksl''
        \<or> inp = ''.sksl''"
      by simp
    moreover have "inp \<noteq> ''.sksl''" using a by auto
    ultimately have "inp = [] \<or> inp = ''l'' \<or> inp = ''sl'' \<or> inp = ''ksl'' \<or> inp = ''sksl''"
      by blast
    then show False using assms
      by (elim disjE) (simp_all add: recognized_input_def suffix_to_prefix)
  qed
  then show ?thesis using base_name_at_eq [of "''.sksl''" inp before "[]"] by (simp add: NUL_def)
qed

lemma base_name_at_short_example:
  "base_name_at before ''a.fp'' [] ''.sksl'' = Inr []"
proof -
  have n: "NUL \<notin> set ''.sksl''" by (simp add: NUL_def)
  have "\<not> (length ''a.fp'' < length ''.sksl'' \<and> suffix ''a.fp'' ''.sksl'')" by code_simp
  from base_name_at_eq [OF n this, of before "[]"]
  have "base_name_at before ''a.fp'' [] ''.sksl'' = base_name ''a.fp'' [] ''.sksl''" .
  also have "\<dots> = Inr []" by code_simp
  finally show ?thesis .
qed

subsection \<open>Tokens that write different parts\<close>

lemma effects_commute:
  "writes e1 \<noteq> writes e2 \<Longrightarrow>
     apply_effect e1 (apply_effect e2 st) = apply_effect e2 (apply_effect e1 st)"
  by (cases e1; cases e2; cases st) simp_all

lemma apply_tokens_permuted:
  assumes "distinct (map (\<lambda>te. writes (snd te)) toks)" and "mset toks' = mset toks"
  shows "apply_tokens toks' st = apply_tokens toks st"
proof -
  let ?f = "\<lambda>te :: string \<times> effect. apply_effect (snd te) :: Settings \<times> ShaderCapsRef \<Rightarrow> _"
  have comm: "?f x \<circ> ?f y = ?f y \<circ> ?f x" if "x \<in> set (rev toks)" "y \<in> set (rev toks)" for x y
  proof (cases "x = y")
    case True
    then show ?thesis by simp
  next
    case False
    from assms(1) have "inj_on (\<lambda>te. writes (snd te)) (set toks)" by (simp add: distinct_map)
    with that False have "writes (snd x) \<noteq> writes (snd y)" by (auto dest: inj_onD)
    then show ?thesis by (auto simp: fun_eq_iff effects_commute)
  qed
  have "mset (rev toks) = mset (rev toks')" using assms(2) by simp
  from fold_multiset_equiv [of "rev toks" ?f "rev toks'", OF comm this]
  show ?thesis by (simp add: apply_tokens_def foldr_conv_fold)
qed

lemma detect_same_effect:
  assumes "set toks \<subseteq> set pragma_table" and "set toks' \<subseteq> set pragma_table"
    and "toks \<noteq> []" and "toks' \<noteq> []"
    and "apply_tokens toks' st = apply_tokens toks st"
  shows "detect_shader_settings
           (pre @ ''/*#pragma settings'' @ concat (map fst toks') @ ''*/'' @ post) st evs
       = detect_shader_settings
           (pre @ ''/*#pragma settings'' @ concat (map fst toks) @ ''*/'' @ post) st evs"
proof -
  obtain alt where alt: "\<And>t. CHR ''*'' \<notin> set t \<Longrightarrow> NUL \<notin> set t \<Longrightarrow>
      pragma_text (pre @ kPragmaSettings @ t @ ''*/'' @ post) =
        (case alt of Inl fixed \<Rightarrow> fixed | Inr d \<Rightarrow> Some (d @ CHR '' '' # t))"
    using pragma_text_shape [of pre post] by blast
  have shape: "detect_shader_settings
           (pre @ ''/*#pragma settings'' @ concat (map fst ts) @ ''*/'' @ post) st evs
      = (case alt of
           Inl fixed \<Rightarrow> (case fixed of None \<Rightarrow> ((True, st), evs) | Some x \<Rightarrow> settings_loop x st evs)
         | Inr d \<Rightarrow> rtl_result d (apply_tokens ts st) evs)"
    if sub: "set ts \<subseteq> set pragma_table" and ne: "ts \<noteq> []" for ts
  proof -
    from tokens_leading_space [OF sub ne] obtain t where t: "concat (map fst ts) = CHR '' '' # t"
      by blast
    with tokens_chars [OF sub] have tc: "CHR ''*'' \<notin> set t" "NUL \<notin> set t" by simp_all
    have "pre @ ''/*#pragma settings'' @ concat (map fst ts) @ ''*/'' @ post
        = pre @ kPragmaSettings @ t @ ''*/'' @ post"
      by (simp add: t kPragmaSettings_def)
    then have "detect_shader_settings
           (pre @ ''/*#pragma settings'' @ concat (map fst ts) @ ''*/'' @ post) st evs
        = detect_shader_settings (pre @ kPragmaSettings @ t @ ''*/'' @ post) st evs"
      by (simp only:)
    also have "\<dots> = (case alt of
           Inl fixed \<Rightarrow> (case fixed of None \<Rightarrow> ((True, st), evs) | Some x \<Rightarrow> settings_loop x st evs)
         | Inr d \<Rightarrow> settings_loop (d @ concat (map fst ts)) st evs)"
      by (simp only: detect_pragma_text alt [OF tc] t) (simp split: sum.splits)
    also have "\<dots> = (case alt of
           Inl fixed \<Rightarrow> (case fixed of None \<Rightarrow> ((True, st), evs) | Some x \<Rightarrow> settings_loop x st evs)
         | Inr d \<Rightarrow> rtl_result d (apply_tokens ts st) evs)"
      by (simp add: settings_loop_rtl rtl_result_def rtl_tokens [OF sub] split: sum.splits)
    finally show ?thesis .
  qed
  show ?thesis
    by (simp only: shape [OF assms(1,3)] shape [OF assms(2,4)] assms(5))
qed

subsection \<open>A close that fails\<close>

lemma processCommand_front_end:
  assumes "front_end env args evs = Some (kind, source, st, evs1)"
  shows "processCommand env args evs = route env kind (args ! 1) source st (args ! 2) evs1"
  using assms
  by (auto simp: front_end_def processCommand_def Let_def
           split: sum.splits option.splits if_splits)

lemma processCommand_no_front_end:
  assumes "front_end env args evs = None"
  shows "fst (processCommand env args evs) = Inr kInputError"
  using assms
  by (auto simp: front_end_def processCommand_def Let_def
           split: sum.splits option.splits if_splits)

lemma compile_to_failed_close:
  assumes "compile_succeeds env f (adj (fst st)) (snd st) g kind source out evs"
    and "\<not> out_close env (evs @ compile_steps f (adj (fst st)) (snd st) g kind source out) out"
  shows "compile_to env f adj (Inr g) kind source st out evs
       = output_error_after out (evs @ compile_steps f (adj (fst st)) (snd st) g kind source out)"
  using assms
  by (simp add: compile_to_def compile_succeeds_def compile_steps_def Let_def
        output_error_after_def error_writing_def)

lemma dehydrate_to_failed_close:
  assumes "out_isValid env evs out" and "base_name inp [] ''.sksl'' = Inr b"
    and "\<not> out_close env (dehydrate_steps env kind inp (snd st) out b evs) out"
  shows "dehydrate_to env kind inp st out evs
       = output_error_after out (dehydrate_steps env kind inp (snd st) out b evs)"
  using assms
  by (simp add: dehydrate_to_def dehydrate_steps_def Let_def output_error_after_def error_writing_def)

lemma route_spirv:
  "suffix ''.spirv'' out \<Longrightarrow>
     route env kind inp s st out evs = compile_to env False (\<lambda>s. s) (Inr toSPIRV) kind s st out evs"
  by (simp add: route_def endsWith_def)

lemma route_glsl:
  "suffix ''.glsl'' out \<Longrightarrow>
     route env kind inp s st out evs = compile_to env False (\<lambda>s. s) (Inr toGLSL) kind s st out evs"
  using not_both_suffix [of "''.glsl''" out "''.spirv''"]
  by (simp add: route_def endsWith_def suffix_to_prefix)

lemma route_metal:
  "suffix ''.metal'' out \<Longrightarrow>
     route env kind inp s st out evs = compile_to env False (\<lambda>s. s) (Inr toMetal) kind s st out evs"
  using not_both_suffix [of "''.metal''" out "''.spirv''"]
    not_both_suffix [of "''.metal''" out "''.glsl''"]
  by (simp add: route_def endsWith_def suffix_to_prefix)

lemma route_h:
  "suffix ''.h'' out \<Longrightarrow>
     route env kind inp s st out evs =
       compile_to env True (\<lambda>s. s\<lparr>fReplaceSettings := False\<rparr>)
         (map_sum (\<lambda>f. f) toH (base_name (c_str inp) ''Gr'' ''.fp'')) kind s st out evs"
  using not_both_suffix [of "''.h''" out "''.spirv''"]
    not_both_suffix [of "''.h''" out "''.glsl''"]
    not_both_suffix [of "''.h''" out "''.metal''"]
  by (simp add: route_def endsWith_def suffix_to_prefix)

lemma route_cpp:
  "suffix ''.cpp'' out \<Longrightarrow>
     route env kind inp s st out evs =
       compile_to env True (\<lambda>s. s\<lparr>fReplaceSettings := False\<rparr>)
         (map_sum (\<lambda>f. f) toCPP (base_name (c_str inp) ''Gr'' ''.fp'')) kind s st out evs"
  using not_both_suffix [of "''.cpp''" out "''.spirv''"]
    not_both_suffix [of "''.cpp''" out "''.glsl''"]
    not_both_suffix [of "''.cpp''" out "''.metal''"]
    not_both_suffix [of "''.cpp''" out "''.h''"]
  by (simp add: route_def endsWith_def suffix_to_prefix)

lemma route_dehydrated:
  "suffix ''.dehydrated.sksl'' out \<Longrightarrow>
     route env kind inp s st out evs = dehydrate_to env kind inp st out evs"
  using not_both_suffix [of "''.dehydrated.sksl''" out "''.spirv''"]
    not_both_suffix [of "''.dehydrated.sksl''" out "''.glsl''"]
    not_both_suffix [of "''.dehydrated.sksl''" out "''.metal''"]
    not_both_suffix [of "''.dehydrated.sksl''" out "''.h''"]
    not_both_suffix [of "''.dehydrated.sksl''" out "''.cpp''"]
  by (simp add: route_def endsWith_def suffix_to_prefix)

subsection \<open>No job of a batch runs into a fault\<close>

text \<open>
  \<^verbatim>\<open>append\<close> gets a count that wrapped around only where prefix and suffix overlap in the file
  name, which \<^verbatim>\<open>Gr\<close> and \<^verbatim>\<open>.fp\<close> cannot and the empty prefix and \<^verbatim>\<open>.sksl\<close> cannot. So every job
  has a result code and every batch an exit status.
\<close>

lemma compile_to_total: "\<exists>rc. fst (compile_to env f adj (Inr g) kind s st out evs) = Inr rc"
  by (simp add: compile_to_def Let_def)

lemma dehydrate_to_total:
  assumes "NUL \<notin> set inp"
  shows "\<exists>rc. fst (dehydrate_to env kind inp st out evs) = Inr rc"
proof -
  from base_name_sksl_total [OF assms] obtain b where "base_name inp [] ''.sksl'' = Inr b" by blast
  then show ?thesis by (simp add: dehydrate_to_def Let_def)
qed

lemma route_total:
  assumes "NUL \<notin> set inp"
  shows "\<exists>rc. fst (route env kind inp s st out evs) = Inr rc"
proof -
  from base_name_Gr_fp_total [of inp] obtain b where "base_name (c_str inp) ''Gr'' ''.fp'' = Inr b"
    by blast
  then show ?thesis
    using compile_to_total dehydrate_to_total [OF assms] by (simp add: route_def)
qed

lemma processCommand_total:
  assumes "\<forall>a\<in>set args. NUL \<notin> set a"
  shows "\<exists>rc. fst (processCommand env args evs) = Inr rc"
proof (cases "check_args args evs")
  case (Inl evs')
  then show ?thesis by (simp add: processCommand_def)
next
  case (Inr honor)
  then have "1 < length args" by (auto simp: check_args_def Let_def split: if_splits)
  with assms have "NUL \<notin> set (args ! 1)" by simp
  from route_total [OF this] Inr show ?thesis
    by (auto simp: processCommand_def Let_def split: option.splits)
qed

lemma run_jobs_total:
  assumes "\<forall>job\<in>set jobs. \<forall>a\<in>set job. NUL \<notin> set a"
  shows "\<exists>outcomes. fst (run_jobs env jobs evs) = Inr outcomes"
  using assms
proof (induction jobs arbitrary: evs)
  case Nil
  show ?case by simp
next
  case (Cons job jobs)
  from Cons.prems have "\<forall>a\<in>set job. NUL \<notin> set a" by simp
  from processCommand_total [OF this, of env evs] obtain rc e where
    pc: "processCommand env job evs = (Inr rc, e)"
    by (cases "processCommand env job evs") auto
  from Cons.prems have "\<forall>job\<in>set jobs. \<forall>a\<in>set job. NUL \<notin> set a" by simp
  from Cons.IH [OF this, of e] obtain rcs e' where "run_jobs env jobs e = (Inr rcs, e')"
    by (cases "run_jobs env jobs e") auto
  with pc show ?case by simp
qed

lemma segments_elems: "set (concat (segments as)) \<subseteq> set as"
proof (induction as)
  case Nil
  show ?case by simp
next
  case (Cons a as)
  obtain s ss where seg: "segments as = s # ss"
    using segments_ne [of as] by (cases "segments as") auto
  with Cons show ?case by auto
qed

lemma batch_jobs_clean: "\<forall>job\<in>set (batch_jobs argv0 argv). \<forall>a\<in>set job. NUL \<notin> set a"
proof (intro ballI)
  fix job a
  assume "job \<in> set (batch_jobs argv0 argv)" and a: "a \<in> set job"
  then obtain seg where "seg \<in> set (segments (map c_str argv))" "job = c_str argv0 # seg"
    by (auto simp: batch_jobs_def)
  with a have "a = c_str argv0 \<or> a \<in> set (concat (segments (map c_str argv)))" by auto
  with segments_elems [of "map c_str argv"] have "a = c_str argv0 \<or> a \<in> set (map c_str argv)"
    by auto
  then show "NUL \<notin> set a" using c_str_no_NUL by auto
qed

lemma main_total:
  "\<exists>outcomes evs'. run_jobs env (batch_jobs argv0 argv) evs = (Inr outcomes, evs')
      \<and> main env argv0 argv evs = (Inr (Max (insert 0 (result_int ` set outcomes))), evs')"
proof -
  from run_jobs_total [OF batch_jobs_clean, of env argv0 argv evs] obtain outcomes evs' where
    rj: "run_jobs env (batch_jobs argv0 argv) evs = (Inr outcomes, evs')"
    by (cases "run_jobs env (batch_jobs argv0 argv) evs") auto
  have "main env argv0 argv evs = main_finish env (main_loop env argv (c_str argv0 # []) kSuccess evs)"
    by (simp add: main_def main_finish_def)
  also have "\<dots> = reduce_from kSuccess (run_jobs env (batch_jobs argv0 argv) evs)"
    using segments_ne [of "map c_str argv"]
    by (cases "segments (map c_str argv)") (simp_all add: main_loop_jobs batch_jobs_def)
  finally have "main env argv0 argv evs = (Inr (Max (insert 0 (result_int ` set outcomes))), evs')"
    by (simp add: rj reduce_from_def result_int_foldl)
  with rj show ?thesis by blast
qed

section \<open>The claims\<close>

text \<open>
  C1. For every batch the exit status is the largest result code of the jobs that ran,
  with \<open>kSuccess = 0 < kCompileError = 1 < kInputError = 2 < kOutputError = 3\<close>. The jobs
  are the non-empty segments between the \<^verbatim>\<open>--\<close> delimiters, the segment after the last
  delimiter included, and a batch without jobs exits with 0. (Where a job runs into a
  fault there is no exit status, and \<open>main\<close> has the fault. No job of a batch does, see
  \<open>main_total\<close>.)
\<close>

theorem main_exit_status:
  "main env argv0 argv evs =
     (case run_jobs env (batch_jobs argv0 argv) evs of
        (Inl f, evs') \<Rightarrow> (Inl f, evs')
      | (Inr outcomes, evs') \<Rightarrow> (Inr (Max (insert 0 (result_int ` set outcomes))), evs'))"
proof -
  have "main env argv0 argv evs = main_finish env (main_loop env argv (c_str argv0 # []) kSuccess evs)"
    by (simp add: main_def main_finish_def)
  also have "\<dots> = reduce_from kSuccess (run_jobs env (batch_jobs argv0 argv) evs)"
    using segments_ne [of "map c_str argv"]
    by (cases "segments (map c_str argv)") (simp_all add: main_loop_jobs batch_jobs_def)
  finally show ?thesis
    by (simp add: reduce_from_def result_int_foldl split: prod.splits sum.splits)
qed

text \<open>The batches of the specification, run in the sample environment.\<close>

lemma batch_jobs_trailing:
  "batch_jobs ''skslc'' [''a.sksl'', ''a.glsl'', ''--'', ''--'', ''b.sksl'', ''b.glsl'', ''--settings'']
     = [[''skslc'', ''a.sksl'', ''a.glsl''], [''skslc'', ''b.sksl'', ''b.glsl'', ''--settings'']]"
  by code_simp

lemma batch_success_compile_error_success:
  "fst (run_jobs (sample_env True)
          (batch_jobs ''skslc'' [''a.sksl'', ''a.glsl'', ''--'', ''broken.sksl'', ''b.glsl'', ''--'',
                                 ''c.sksl'', ''c.glsl'']) [])
     = Inr [kSuccess, kCompileError, kSuccess]
   \<and> fst (main (sample_env True) ''skslc''
          [''a.sksl'', ''a.glsl'', ''--'', ''broken.sksl'', ''b.glsl'', ''--'', ''c.sksl'', ''c.glsl'']
          []) = Inr 1"
  by code_simp

lemma batch_input_error_output_error:
  "fst (run_jobs (sample_env True)
          (batch_jobs ''skslc'' [''a.txt'', ''a.glsl'', ''--'', ''c.sksl'', ''/readonly/c.glsl'']) [])
     = Inr [kInputError, kOutputError]
   \<and> fst (main (sample_env True) ''skslc''
          [''a.txt'', ''a.glsl'', ''--'', ''c.sksl'', ''/readonly/c.glsl''] []) = Inr 3"
  by code_simp

lemma batch_empty:
  "main env ''skslc'' [] evs = (Inr 0, evs) \<and> main env ''skslc'' [''--'', ''--''] evs = (Inr 0, evs)"
  by (simp add: main_def c_str_def NUL_def)

text \<open>
  C2. Where the text of the pragma is stripped, turn after turn of the loop, to a remainder
  \<open>r\<close> that is not empty and that one more turn leaves as it is, the parser prints the
  diagnostic with \<open>r\<close> and returns false, and the job (one that honors the pragma) returns
  \<open>kInputError\<close>: after the read of the input the diagnostic is its only event, so no
  compiler is made and no output stream is opened or written.
\<close>

theorem unrecognized_pragma_aborts:
  assumes "check_args args evs = Inr True"
    and "resolve_kind (args ! 1) = Some kind"
    and "ifstream_read env evs (args ! 1) = Some source"
    and "pragma_text source = Some x"
    and "(settings_pass ^^ n) (x, Settings_ctor env, standaloneCaps) = (r, st')"
    and "r \<noteq> []"
    and "fst (settings_pass (r, st')) = r"
  shows "detect_shader_settings source (Settings_ctor env, standaloneCaps) evs1 =
           ((False, st'),
            evs1 @ [Stdout_printf ''Unrecognized #pragma settings: %s\<newline>'' [ArgS r]])
       \<and> processCommand env args evs =
           (Inr kInputError,
            evs @ [Ifstream_read (args ! 1) (Some source),
                   Stdout_printf ''Unrecognized #pragma settings: %s\<newline>'' [ArgS r]])"
proof -
  have "prefix r x"
    using funpow_settings_pass_prefix [of n "(x, Settings_ctor env, standaloneCaps)"] assms(5)
    by simp
  then have "set r \<subseteq> set x" by (auto simp: prefix_def)
  with pragma_text_no_NUL [OF assms(4)] have "NUL \<notin> set r" by auto
  then have r: "c_str r = r" by (rule c_str_clean)
  have detect: "detect_shader_settings source (Settings_ctor env, standaloneCaps) e
        = ((False, st'), e @ [unrecognized r])" for e
    using settings_loop_stuck [OF assms(5,6,7)] assms(4) by (simp add: detect_pragma_text)
  from detect [of "evs @ [Ifstream_read (args ! 1) (Some source)]"] assms(1,2,3)
  have "processCommand env args evs =
           (Inr kInputError,
            evs @ [Ifstream_read (args ! 1) (Some source), unrecognized r])"
    by (simp add: processCommand_def Let_def)
  with detect [of evs1] r show ?thesis by (simp add: unrecognized_def)
qed

theorem unrecognized_pragma_aborts_witness:
  "detect_shader_settings ''/*#pragma settings Bogus*/ void main() {}''
       (sample_settings, standaloneCaps) [] =
     ((False, sample_settings, standaloneCaps),
      [Stdout_printf ''Unrecognized #pragma settings: %s\<newline>'' [ArgS '' Bogus'']])
   \<and> processCommand (sample_env True) [''skslc'', ''bogus.sksl'', ''out.glsl''] [] =
     (Inr kInputError,
      [Ifstream_read ''bogus.sksl'' (Some ''/*#pragma settings Bogus*/ void main() {}''),
       Stdout_printf ''Unrecognized #pragma settings: %s\<newline>'' [ArgS '' Bogus'']])"
proof -
  let ?args = "[''skslc'', ''bogus.sksl'', ''out.glsl'']"
  let ?source = "''/*#pragma settings Bogus*/ void main() {}''"
  have h1: "check_args ?args [] = Inr True" by (simp add: check_args_def)
  have h2: "resolve_kind (?args ! 1) = Some kFragment_Kind" by code_simp
  have h3: "ifstream_read (sample_env True) [] (?args ! 1) = Some ?source"
    by (simp add: sample_env_def)
  have h4: "pragma_text ?source = Some '' Bogus''" by code_simp
  have h5: "(settings_pass ^^ 0) ('' Bogus'', Settings_ctor (sample_env True), standaloneCaps)
      = ('' Bogus'', sample_settings, standaloneCaps)"
    by (simp add: sample_env_def)
  have h6: "'' Bogus'' \<noteq> []" by simp
  have h7: "fst (settings_pass ('' Bogus'', sample_settings, standaloneCaps)) = '' Bogus''"
    by code_simp
  from unrecognized_pragma_aborts [OF h1 h2 h3 h4 h5 h6 h7, of "[]"] show ?thesis
    by (simp add: sample_env_def)
qed

text \<open>
  C3. Two tokens of the table that write different parts of the state give the same result
  of the parser (the settings, the capabilities, the return value and what is printed) in
  either order, whatever stands before and after the comment and whatever the state was;
  so does every rearrangement of a list of tokens that write pairwise different parts.
  \<open>Default\<close> and \<open>Sharpen\<close> are such a pair: on the comment alone both orders switch sharpening
  on and select the \<open>Default\<close> capabilities.
\<close>

theorem pragma_order_independent:
  "(te1 \<in> set pragma_table \<and> te2 \<in> set pragma_table \<and> writes (snd te1) \<noteq> writes (snd te2) \<longrightarrow>
      detect_shader_settings (pre @ ''/*#pragma settings'' @ fst te1 @ fst te2 @ ''*/'' @ post) st evs
    = detect_shader_settings (pre @ ''/*#pragma settings'' @ fst te2 @ fst te1 @ ''*/'' @ post) st evs) \<and>
   (set toks \<subseteq> set pragma_table \<and> distinct (map (\<lambda>te. writes (snd te)) toks)
      \<and> mset toks' = mset toks \<longrightarrow>
      detect_shader_settings
        (pre @ ''/*#pragma settings'' @ concat (map fst toks') @ ''*/'' @ post) st evs
    = detect_shader_settings
        (pre @ ''/*#pragma settings'' @ concat (map fst toks) @ ''*/'' @ post) st evs) \<and>
   detect_shader_settings (pre @ ''/*#pragma settings Default Sharpen*/'' @ post) st evs
     = detect_shader_settings (pre @ ''/*#pragma settings Sharpen Default*/'' @ post) st evs \<and>
   detect_shader_settings ''/*#pragma settings Default Sharpen*/'' (settings, caps) evs
     = ((True, settings\<lparr>fSharpenTextures := True\<rparr>, s_defaultCaps), evs) \<and>
   detect_shader_settings ''/*#pragma settings Sharpen Default*/'' (settings, caps) evs
     = ((True, settings\<lparr>fSharpenTextures := True\<rparr>, s_defaultCaps), evs)"
proof -
  have lists: "detect_shader_settings
        (pre' @ ''/*#pragma settings'' @ concat (map fst ts') @ ''*/'' @ post') st' evs
    = detect_shader_settings
        (pre' @ ''/*#pragma settings'' @ concat (map fst ts) @ ''*/'' @ post') st' evs"
    if a: "set ts \<subseteq> set pragma_table" "distinct (map (\<lambda>te. writes (snd te)) ts)" "mset ts' = mset ts"
    for ts ts' pre' post' st'
  proof (cases "ts = []")
    case True
    with a(3) show ?thesis by simp
  next
    case False
    from a(3) have s: "set ts' = set ts" by (rule mset_eq_setD)
    with False have ne: "ts' \<noteq> []" by auto
    from detect_same_effect [OF a(1) _ False ne apply_tokens_permuted [OF a(2,3)]] s a(1)
    show ?thesis by simp
  qed
  have pair: "detect_shader_settings (pre' @ ''/*#pragma settings'' @ fst a @ fst b @ ''*/'' @ post') st' evs
    = detect_shader_settings (pre' @ ''/*#pragma settings'' @ fst b @ fst a @ ''*/'' @ post') st' evs"
    if "a \<in> set pragma_table" "b \<in> set pragma_table" "writes (snd a) \<noteq> writes (snd b)"
    for a b pre' post' st'
    using lists [of "[b, a]" "[a, b]" pre' post' st'] that by simp
  let ?D = "('' Default'', SetCaps s_defaultCaps)" and ?S = "('' Sharpen'', SetSharpenTextures)"
  have mem: "?D \<in> set pragma_table" "?S \<in> set pragma_table"
    by (simp_all add: pragma_table_def)
  have general: "detect_shader_settings (pre @ ''/*#pragma settings Default Sharpen*/'' @ post) st evs
     = detect_shader_settings (pre @ ''/*#pragma settings Sharpen Default*/'' @ post) st evs"
    using pair [OF mem, of pre post st] by simp
  have alone: "detect_shader_settings (''/*#pragma settings'' @ concat (map fst ts) @ ''*/'') (settings, caps) evs
      = ((True, apply_tokens ts (settings, caps)), evs)"
    if sub: "set ts \<subseteq> set pragma_table" and ne: "ts \<noteq> []" for ts
  proof -
    from tokens_leading_space [OF sub ne] obtain t where t: "concat (map fst ts) = CHR '' '' # t"
      by blast
    with tokens_chars [OF sub] have tc: "CHR ''*'' \<notin> set t" "NUL \<notin> set t" by simp_all
    have "kPragmaSettings \<noteq> []" by (simp add: kPragmaSettings_def)
    then have "pragma_text ([] @ kPragmaSettings @ t @ ''*/'' @ []) = Some (CHR '' '' # t)"
      using pragma_text_first [of "[]" t "[]"] tc by simp
    moreover have "''/*#pragma settings'' @ concat (map fst ts) @ ''*/'' = [] @ kPragmaSettings @ t @ ''*/'' @ []"
      by (simp add: t kPragmaSettings_def)
    ultimately have "pragma_text (''/*#pragma settings'' @ concat (map fst ts) @ ''*/'') = Some (concat (map fst ts))"
      by (simp only: t)
    then show ?thesis
      by (simp only: detect_pragma_text option.case settings_loop_tokens [OF sub])
  qed
  have alone1: "detect_shader_settings ''/*#pragma settings Default Sharpen*/'' (settings, caps) evs
     = ((True, settings\<lparr>fSharpenTextures := True\<rparr>, s_defaultCaps), evs)"
    using alone [of "[?D, ?S]"] mem by (simp add: apply_tokens_def)
  have alone2: "detect_shader_settings ''/*#pragma settings Sharpen Default*/'' (settings, caps) evs
     = ((True, settings\<lparr>fSharpenTextures := True\<rparr>, s_defaultCaps), evs)"
    using alone [of "[?S, ?D]"] mem by (simp add: apply_tokens_def)
  from lists [of toks toks' pre post st] pair [of te1 te2 pre post st] general alone1 alone2
  show ?thesis by blast
qed

theorem pragma_order_independent_witness:
  "detect_shader_settings
     (''// a\<newline>'' @ ''/*#pragma settings'' @ '' FlipY'' @ '' Version110'' @ ''*/'' @ '' void main() {}'')
     (sample_settings, standaloneCaps) []
   = ((True, sample_settings\<lparr>fFlipY := True\<rparr>, s_version110Caps), []) \<and>
   detect_shader_settings
     (''// a\<newline>'' @ ''/*#pragma settings'' @ '' Version110'' @ '' FlipY'' @ ''*/'' @ '' void main() {}'')
     (sample_settings, standaloneCaps) []
   = ((True, sample_settings\<lparr>fFlipY := True\<rparr>, s_version110Caps), []) \<and>
   detect_shader_settings
     (''/*#pragma settings'' @ concat (map fst [('' NoInline'', SetInlineThreshold 0),
         ('' Sharpen'', SetSharpenTextures), ('' Default'', SetCaps s_defaultCaps)]) @ ''*/'' @ [])
     (sample_settings, standaloneCaps) []
   = ((True, sample_settings\<lparr>fInlineThreshold := 0, fSharpenTextures := True\<rparr>, s_defaultCaps), []) \<and>
   detect_shader_settings
     (''/*#pragma settings'' @ concat (map fst [('' Default'', SetCaps s_defaultCaps),
         ('' NoInline'', SetInlineThreshold 0), ('' Sharpen'', SetSharpenTextures)]) @ ''*/'' @ [])
     (sample_settings, standaloneCaps) []
   = ((True, sample_settings\<lparr>fInlineThreshold := 0, fSharpenTextures := True\<rparr>, s_defaultCaps), [])"
proof -
  let ?F = "('' FlipY'', SetFlipY)" and ?V = "('' Version110'', SetCaps s_version110Caps)"
  let ?N = "('' NoInline'', SetInlineThreshold 0)" and ?S = "('' Sharpen'', SetSharpenTextures)"
  let ?D = "('' Default'', SetCaps s_defaultCaps)"
  have mem: "?F \<in> set pragma_table" "?V \<in> set pragma_table" "set [?D, ?N, ?S] \<subseteq> set pragma_table"
    by (simp_all add: pragma_table_def)
  have w: "writes (snd ?F) \<noteq> writes (snd ?V)" "distinct (map (\<lambda>te. writes (snd te)) [?D, ?N, ?S])"
    "mset [?N, ?S, ?D] = mset [?D, ?N, ?S]"
    by simp_all
  have r1: "detect_shader_settings
     (''// a\<newline>'' @ ''/*#pragma settings'' @ '' Version110'' @ '' FlipY'' @ ''*/'' @ '' void main() {}'')
     (sample_settings, standaloneCaps) []
   = ((True, sample_settings\<lparr>fFlipY := True\<rparr>, s_version110Caps), [])"
    by code_simp
  have r2: "detect_shader_settings
     (''/*#pragma settings'' @ concat (map fst [?D, ?N, ?S]) @ ''*/'' @ [])
     (sample_settings, standaloneCaps) []
   = ((True, sample_settings\<lparr>fInlineThreshold := 0, fSharpenTextures := True\<rparr>, s_defaultCaps), [])"
    by code_simp
  from pragma_order_independent [of ?F ?V "''// a\<newline>''" "'' void main() {}''"
      "(sample_settings, standaloneCaps)" "[]" "[?D, ?N, ?S]" "[?N, ?S, ?D]"]
    pragma_order_independent [of ?F ?V "[]" "[]"
      "(sample_settings, standaloneCaps)" "[]" "[?D, ?N, ?S]" "[?N, ?S, ?D]"]
  show ?thesis using mem w r1 r2 by simp
qed

text \<open>
  The specification has the leftmost selector of the pragma win wherever two selectors or
  more appear in it. On a pragma that the loop rejects this fails: in
  \<^verbatim>\<open> Default Bogus Version110\<close> the leftmost selector is \<open>Default\<close>; the loop strips
  \<open>Version110\<close>, stops at \<open>Bogus\<close> and leaves the capabilities of \<open>Version110\<close>.
\<close>

theorem leftmost_selector_counterexample:
  "leftmost_selector '' Default Bogus Version110'' = Some s_defaultCaps \<and>
   settings_loop '' Default Bogus Version110'' (sample_settings, standaloneCaps) [] =
     ((False, sample_settings, s_version110Caps),
      [Stdout_printf ''Unrecognized #pragma settings: %s\<newline>'' [ArgS '' Default Bogus'']]) \<and>
   snd (snd (fst (detect_shader_settings ''/*#pragma settings Default Bogus Version110*/ void main() {}''
                    (sample_settings, standaloneCaps) [])))
     = s_version110Caps \<and>
   s_version110Caps \<noteq> s_defaultCaps"
  by code_simp

text \<open>
  C4. After the loop the capability pointer is the bundle of the selector that was
  stripped last, for every text (whether the loop then succeeds or not). On a text made
  of tokens of the table the tokens are stripped from the right, so with one selector or
  more the result is the bundle of the leftmost selector, at the loop and at the parser
  for a text whose first marker opens this pragma. Every selector that is stripped
  writes its bundle over the pointer, whatever the pointer was.
\<close>

theorem leftmost_selector_wins:
  "(selectors (consumed x) \<noteq> [] \<longrightarrow>
      snd (snd (fst (settings_loop x (settings, caps) evs))) = last (selectors (consumed x))) \<and>
   (set toks \<subseteq> set pragma_table \<and> selectors toks \<noteq> [] \<longrightarrow>
      consumed (concat (map fst toks)) = rev toks \<and>
      settings_loop (concat (map fst toks)) (settings, caps) evs =
        ((True, fst (apply_tokens toks (settings, caps)), hd (selectors toks)), evs) \<and>
      (NUL \<notin> set pre \<and> \<not> sublist kPragmaSettings pre \<longrightarrow>
         detect_shader_settings
           (pre @ ''/*#pragma settings'' @ concat (map fst toks) @ ''*/'' @ post) (settings, caps) evs =
         ((True, fst (apply_tokens toks (settings, caps)), hd (selectors toks)), evs))) \<and>
   ((tok, SetCaps b) \<in> set pragma_table \<longrightarrow>
      try_token (tok, SetCaps b) (y @ tok, settings, caps) = (y, settings, b))"
proof (intro conjI impI)
  assume ne: "selectors (consumed x) \<noteq> []"
  have "snd (snd (fst (settings_loop x (settings, caps) evs))) = snd (snd (rtl x (settings, caps)))"
    by (simp add: settings_loop_rtl rtl_result_def)
  also have "\<dots> = last (selectors (consumed x))"
    using ne by (simp add: rtl_consumed snd_foldl_effects)
  finally show "snd (snd (fst (settings_loop x (settings, caps) evs))) = last (selectors (consumed x))" .
next
  assume "set toks \<subseteq> set pragma_table \<and> selectors toks \<noteq> []"
  then show "consumed (concat (map fst toks)) = rev toks"
    using consumed_tokens [of toks "[]"] by (simp add: consumed_Nil)
next
  assume a: "set toks \<subseteq> set pragma_table \<and> selectors toks \<noteq> []"
  then have "snd (apply_tokens toks (settings, caps)) = hd (selectors toks)"
    by (cases "selectors toks") (simp_all add: snd_apply_tokens)
  then have "apply_tokens toks (settings, caps)
      = (fst (apply_tokens toks (settings, caps)), hd (selectors toks))"
    by (simp add: prod_eq_iff)
  with a settings_loop_tokens [of toks "(settings, caps)" evs]
  show loop: "settings_loop (concat (map fst toks)) (settings, caps) evs =
           ((True, fst (apply_tokens toks (settings, caps)), hd (selectors toks)), evs)"
    by simp
  assume first: "NUL \<notin> set pre \<and> \<not> sublist kPragmaSettings pre"
  from a have sub: "set toks \<subseteq> set pragma_table" and "toks \<noteq> []"
    by (auto simp: selectors_def)
  from tokens_leading_space [OF this] obtain t where t: "concat (map fst toks) = CHR '' '' # t"
    by blast
  with tokens_chars [OF sub] have tc: "CHR ''*'' \<notin> set t" "NUL \<notin> set t" by simp_all
  have "pre @ ''/*#pragma settings'' @ concat (map fst toks) @ ''*/'' @ post
      = pre @ kPragmaSettings @ t @ ''*/'' @ post"
    by (simp add: t kPragmaSettings_def)
  then have eq: "detect_shader_settings
           (pre @ ''/*#pragma settings'' @ concat (map fst toks) @ ''*/'' @ post) (settings, caps) evs
      = detect_shader_settings (pre @ kPragmaSettings @ t @ ''*/'' @ post) (settings, caps) evs"
    by (simp only:)
  from first have pt: "pragma_text (pre @ kPragmaSettings @ t @ ''*/'' @ post) = Some (CHR '' '' # t)"
    using pragma_text_first tc by blast
  have "detect_shader_settings (pre @ kPragmaSettings @ t @ ''*/'' @ post) (settings, caps) evs
      = settings_loop (CHR '' '' # t) (settings, caps) evs"
    by (simp only: detect_pragma_text pt option.case)
  also have "\<dots> = ((True, fst (apply_tokens toks (settings, caps)), hd (selectors toks)), evs)"
    using loop by (simp only: t)
  finally show "detect_shader_settings
         (pre @ ''/*#pragma settings'' @ concat (map fst toks) @ ''*/'' @ post) (settings, caps) evs =
         ((True, fst (apply_tokens toks (settings, caps)), hd (selectors toks)), evs)"
    by (simp only: eq)
next
  assume "(tok, SetCaps b) \<in> set pragma_table"
  show "try_token (tok, SetCaps b) (y @ tok, settings, caps) = (y, settings, b)"
    by (simp add: try_token_hit suffix_def)
qed

theorem leftmost_selector_wins_witness:
  "snd (snd (fst (settings_loop '' Bogus Default Version110'' (sample_settings, standaloneCaps) [])))
     = s_defaultCaps
   \<and> settings_loop '' Default Version110 Sharpen'' (sample_settings, standaloneCaps) [] =
       ((True, sample_settings\<lparr>fSharpenTextures := True\<rparr>, s_defaultCaps), [])
   \<and> detect_shader_settings
       (''// first line\<newline>'' @ ''/*#pragma settings'' @ '' Default Version110 Sharpen'' @ ''*/'' @
        '' void main() {}'')
       (sample_settings, standaloneCaps) [] =
       ((True, sample_settings\<lparr>fSharpenTextures := True\<rparr>, s_defaultCaps), [])
   \<and> try_token ('' Default'', SetCaps s_defaultCaps) ('' Version110'' @ '' Default'', sample_settings, s_version110Caps)
     = ('' Version110'', sample_settings, s_defaultCaps)"
proof -
  let ?toks = "[('' Default'', SetCaps s_defaultCaps), ('' Version110'', SetCaps s_version110Caps),
                ('' Sharpen'', SetSharpenTextures)]"
  have c: "consumed '' Bogus Default Version110''
      = [('' Version110'', SetCaps s_version110Caps), ('' Default'', SetCaps s_defaultCaps)]"
    by code_simp
  have sub: "set ?toks \<subseteq> set pragma_table" by (simp add: pragma_table_def)
  have sel: "selectors ?toks = [s_defaultCaps, s_version110Caps]" by (simp add: selectors_def)
  have mem: "('' Default'', SetCaps s_defaultCaps) \<in> set pragma_table" by (simp add: pragma_table_def)
  have pre: "NUL \<notin> set ''// first line\<newline>''" "\<not> sublist kPragmaSettings ''// first line\<newline>''"
    by code_simp+
  have app: "apply_tokens ?toks (sample_settings, standaloneCaps)
      = (sample_settings\<lparr>fSharpenTextures := True\<rparr>, s_defaultCaps)"
    by (simp add: apply_tokens_def)
  from leftmost_selector_wins [of "'' Bogus Default Version110''" sample_settings standaloneCaps "[]"
      ?toks "''// first line\<newline>''" "'' void main() {}''"
      "'' Default''" s_defaultCaps "'' Version110''"]
    leftmost_selector_wins [of "[]" sample_settings s_version110Caps "[]" "[]" "[]" "[]"
      "'' Default''" s_defaultCaps "'' Version110''"]
  show ?thesis
    using c sub sel mem pre app by (simp add: selectors_def)
qed

text \<open>
  C5. The stage follows from the end of the input path: \<^verbatim>\<open>.vert\<close> is the vertex stage,
  \<^verbatim>\<open>.frag\<close> and \<^verbatim>\<open>.sksl\<close> the fragment stage, \<^verbatim>\<open>.geom\<close> the geometry stage, \<^verbatim>\<open>.fp\<close> a fragment
  processor and \<^verbatim>\<open>.stage\<close> a pipeline stage. A path with none of these ends has no stage:
  a job with well-formed arguments prints the message that names the six suffixes and
  returns \<open>kInputError\<close>, with no other event.
\<close>

theorem stage_resolution:
  "(suffix ''.vert'' p \<longrightarrow> resolve_kind p = Some kVertex_Kind) \<and>
   (suffix ''.frag'' p \<or> suffix ''.sksl'' p \<longrightarrow> resolve_kind p = Some kFragment_Kind) \<and>
   (suffix ''.geom'' p \<longrightarrow> resolve_kind p = Some kGeometry_Kind) \<and>
   (suffix ''.fp'' p \<longrightarrow> resolve_kind p = Some kFragmentProcessor_Kind) \<and>
   (suffix ''.stage'' p \<longrightarrow> resolve_kind p = Some kPipelineStage_Kind) \<and>
   (\<not> recognized_input p \<longrightarrow> resolve_kind p = None) \<and>
   (check_args args evs = Inr honorSettings \<and> \<not> recognized_input (args ! 1) \<longrightarrow>
      processCommand env args evs = (Inr kInputError, evs @ [Stdout_printf bad_input_suffix []])) \<and>
   list_all (\<lambda>s. sublist s bad_input_suffix)
     [''.vert'', ''.frag'', ''.geom'', ''.fp'', ''.stage'', ''.sksl'']"
proof -
  have "list_all (\<lambda>s. sublist s bad_input_suffix)
     [''.vert'', ''.frag'', ''.geom'', ''.fp'', ''.stage'', ''.sksl'']"
    unfolding bad_input_suffix_def by code_simp
  then show ?thesis
    using resolve_vert resolve_frag resolve_sksl resolve_geom resolve_fp resolve_stage resolve_none
    by (auto simp: processCommand_def)
qed

theorem stage_resolution_witness:
  "resolve_kind ''a.vert'' = Some kVertex_Kind \<and>
   resolve_kind ''a.frag'' = Some kFragment_Kind \<and>
   resolve_kind ''a.sksl'' = Some kFragment_Kind \<and>
   resolve_kind ''a.geom'' = Some kGeometry_Kind \<and>
   resolve_kind ''GrFoo.fp'' = Some kFragmentProcessor_Kind \<and>
   resolve_kind ''a.stage'' = Some kPipelineStage_Kind \<and>
   resolve_kind ''a.txt'' = None \<and>
   processCommand (sample_env True) [''skslc'', ''a.txt'', ''a.glsl''] []
     = (Inr kInputError, [Stdout_printf bad_input_suffix []])"
proof -
  have a: "check_args [''skslc'', ''a.txt'', ''a.glsl''] [] = Inr True"
    by (simp add: check_args_def)
  have n: "\<not> recognized_input ''a.txt''" by code_simp
  have s: "suffix ''.vert'' ''a.vert''" "suffix ''.frag'' ''a.frag''" "suffix ''.sksl'' ''a.sksl''"
    "suffix ''.geom'' ''a.geom''" "suffix ''.fp'' ''GrFoo.fp''" "suffix ''.stage'' ''a.stage''"
    by code_simp+
  from stage_resolution [of "''a.vert''"] stage_resolution [of "''a.frag''"]
    stage_resolution [of "''a.sksl''"] stage_resolution [of "''a.geom''"]
    stage_resolution [of "''GrFoo.fp''"] stage_resolution [of "''a.stage''"]
    stage_resolution [of "''a.txt''" "[''skslc'', ''a.txt'', ''a.glsl'']" "[]" True "sample_env True"]
  show ?thesis using a n s by simp
qed

text \<open>
  C6. A job whose argument list has neither three nor four elements prints the usage
  banner and returns \<open>kInputError\<close>; so does a job of four elements whose fourth is
  neither \<^verbatim>\<open>--settings\<close> nor \<^verbatim>\<open>--nosettings\<close>, after the line that names the flag. These
  prints are the only events: no file is read and no output is opened. (The arguments
  are compared as C strings; for an argument of the command line \<open>c_str\<close> changes
  nothing, see \<open>c_str_clean\<close>.)
\<close>

theorem bad_args_rejected:
  "(length args \<noteq> 3 \<and> length args \<noteq> 4 \<longrightarrow>
      processCommand env args evs = (Inr kInputError, evs @ [Stdout_printf usage_banner []])) \<and>
   (length args = 4 \<and> c_str (args ! 3) \<noteq> ''--settings'' \<and> c_str (args ! 3) \<noteq> ''--nosettings'' \<longrightarrow>
      processCommand env args evs =
        (Inr kInputError,
         evs @ [Stdout_printf ''unrecognized flag: %s\<newline>\<newline>'' [ArgS (c_str (args ! 3))],
                Stdout_printf usage_banner []]))"
  by (simp add: processCommand_def check_args_def show_usage_def)

theorem bad_args_rejected_witness:
  "processCommand (sample_env True) [''skslc'', ''a.sksl''] []
     = (Inr kInputError, [Stdout_printf usage_banner []]) \<and>
   processCommand (sample_env True) [''skslc'', ''a.sksl'', ''a.glsl'', ''--settings'', ''extra''] []
     = (Inr kInputError, [Stdout_printf usage_banner []]) \<and>
   processCommand (sample_env True) [''skslc'', ''a.sksl'', ''a.glsl'', ''--fast''] []
     = (Inr kInputError,
        [Stdout_printf ''unrecognized flag: %s\<newline>\<newline>'' [ArgS ''--fast''],
         Stdout_printf usage_banner []])"
proof -
  have c: "c_str ''--fast'' = ''--fast''" by code_simp
  from bad_args_rejected [of "[''skslc'', ''a.sksl'']" "sample_env True" "[]"]
    bad_args_rejected [of "[''skslc'', ''a.sksl'', ''a.glsl'', ''--settings'', ''extra'']" "sample_env True" "[]"]
    bad_args_rejected [of "[''skslc'', ''a.sksl'', ''a.glsl'', ''--fast'']" "sample_env True" "[]"]
  show ?thesis by (simp add: c)
qed

text \<open>
  C7. On a text that does not contain the marker \<^verbatim>\<open>/*#pragma settings \<close> the parser returns
  true, leaves the settings and the capability pointer as they were passed in (in a job:
  the default-constructed settings and the standalone capabilities) and prints nothing.
\<close>

theorem detect_no_marker:
  assumes "\<not> sublist kPragmaSettings source"
  shows "detect_shader_settings source st evs = ((True, st), evs)"
proof (cases "strstr (c_str source) kPragmaSettings")
  case None
  then show ?thesis by (simp add: detect_shader_settings_def)
next
  case (Some p)
  from strstr_c_str_sublist [OF Some] obtain a r t where "source = a @ kPragmaSettings @ r @ t"
    by blast
  then have "sublist kPragmaSettings source" by (auto simp: sublist_def)
  with assms show ?thesis by simp
qed

theorem detect_no_marker_witness:
  "detect_shader_settings ''/* #pragma settings Sharpen */ void main() {}''
       (Settings_ctor (sample_env True), standaloneCaps) []
     = ((True, sample_settings, standaloneCaps), [])"
proof -
  have "\<not> sublist kPragmaSettings ''/* #pragma settings Sharpen */ void main() {}''"
    by code_simp
  from detect_no_marker [OF this, of "(Settings_ctor (sample_env True), standaloneCaps)" "[]"]
  show ?thesis by (simp add: sample_env_def)
qed



text \<open>
  C9. A job gets to its backend, the output opens, the conversion and the code generation
  succeed, and the close of the output then fails: the job returns \<open>kOutputError\<close>, at each
  of the six backends, and its events are those of the successful steps, the failed close
  and the line that reports the error. (At \<^verbatim>\<open>.dehydrated.sksl\<close> the steps are the open and
  the writes; at \<^verbatim>\<open>.h\<close> and \<^verbatim>\<open>.cpp\<close> the generator gets the base name of the input.) What a
  step answers is asked of the environment at the events reached by then.
\<close>

theorem failed_close_is_output_error:
  "front_end env args evs = Some (kind, source, (settings, caps), evs1) \<longrightarrow>
   (suffix ''.spirv'' (args ! 2)
      \<and> compile_succeeds env False settings caps toSPIRV kind source (args ! 2) evs1
      \<and> \<not> out_close env (evs1 @ compile_steps False settings caps toSPIRV kind source (args ! 2)) (args ! 2)
    \<longrightarrow> processCommand env args evs =
          output_error_after (args ! 2)
            (evs1 @ compile_steps False settings caps toSPIRV kind source (args ! 2))) \<and>
   (suffix ''.glsl'' (args ! 2)
      \<and> compile_succeeds env False settings caps toGLSL kind source (args ! 2) evs1
      \<and> \<not> out_close env (evs1 @ compile_steps False settings caps toGLSL kind source (args ! 2)) (args ! 2)
    \<longrightarrow> processCommand env args evs =
          output_error_after (args ! 2)
            (evs1 @ compile_steps False settings caps toGLSL kind source (args ! 2))) \<and>
   (suffix ''.metal'' (args ! 2)
      \<and> compile_succeeds env False settings caps toMetal kind source (args ! 2) evs1
      \<and> \<not> out_close env (evs1 @ compile_steps False settings caps toMetal kind source (args ! 2)) (args ! 2)
    \<longrightarrow> processCommand env args evs =
          output_error_after (args ! 2)
            (evs1 @ compile_steps False settings caps toMetal kind source (args ! 2))) \<and>
   (suffix ''.h'' (args ! 2)
      \<and> base_name (c_str (args ! 1)) ''Gr'' ''.fp'' = Inr b
      \<and> compile_succeeds env True (settings\<lparr>fReplaceSettings := False\<rparr>) caps (toH b) kind source
          (args ! 2) evs1
      \<and> \<not> out_close env
            (evs1 @ compile_steps True (settings\<lparr>fReplaceSettings := False\<rparr>) caps (toH b) kind source
                      (args ! 2))
            (args ! 2)
    \<longrightarrow> processCommand env args evs =
          output_error_after (args ! 2)
            (evs1 @ compile_steps True (settings\<lparr>fReplaceSettings := False\<rparr>) caps (toH b) kind source
                      (args ! 2))) \<and>
   (suffix ''.cpp'' (args ! 2)
      \<and> base_name (c_str (args ! 1)) ''Gr'' ''.fp'' = Inr b
      \<and> compile_succeeds env True (settings\<lparr>fReplaceSettings := False\<rparr>) caps (toCPP b) kind source
          (args ! 2) evs1
      \<and> \<not> out_close env
            (evs1 @ compile_steps True (settings\<lparr>fReplaceSettings := False\<rparr>) caps (toCPP b) kind source
                      (args ! 2))
            (args ! 2)
    \<longrightarrow> processCommand env args evs =
          output_error_after (args ! 2)
            (evs1 @ compile_steps True (settings\<lparr>fReplaceSettings := False\<rparr>) caps (toCPP b) kind source
                      (args ! 2))) \<and>
   (suffix ''.dehydrated.sksl'' (args ! 2)
      \<and> out_isValid env evs1 (args ! 2)
      \<and> base_name (args ! 1) [] ''.sksl'' = Inr d
      \<and> \<not> out_close env (dehydrate_steps env kind (args ! 1) caps (args ! 2) d evs1) (args ! 2)
    \<longrightarrow> processCommand env args evs =
          output_error_after (args ! 2)
            (dehydrate_steps env kind (args ! 1) caps (args ! 2) d evs1))"
proof (intro impI)
  assume "front_end env args evs = Some (kind, source, (settings, caps), evs1)"
  then have pc: "processCommand env args evs
      = route env kind (args ! 1) source (settings, caps) (args ! 2) evs1"
    by (rule processCommand_front_end)
  show "(suffix ''.spirv'' (args ! 2)
      \<and> compile_succeeds env False settings caps toSPIRV kind source (args ! 2) evs1
      \<and> \<not> out_close env (evs1 @ compile_steps False settings caps toSPIRV kind source (args ! 2)) (args ! 2)
    \<longrightarrow> processCommand env args evs =
          output_error_after (args ! 2)
            (evs1 @ compile_steps False settings caps toSPIRV kind source (args ! 2))) \<and>
   (suffix ''.glsl'' (args ! 2)
      \<and> compile_succeeds env False settings caps toGLSL kind source (args ! 2) evs1
      \<and> \<not> out_close env (evs1 @ compile_steps False settings caps toGLSL kind source (args ! 2)) (args ! 2)
    \<longrightarrow> processCommand env args evs =
          output_error_after (args ! 2)
            (evs1 @ compile_steps False settings caps toGLSL kind source (args ! 2))) \<and>
   (suffix ''.metal'' (args ! 2)
      \<and> compile_succeeds env False settings caps toMetal kind source (args ! 2) evs1
      \<and> \<not> out_close env (evs1 @ compile_steps False settings caps toMetal kind source (args ! 2)) (args ! 2)
    \<longrightarrow> processCommand env args evs =
          output_error_after (args ! 2)
            (evs1 @ compile_steps False settings caps toMetal kind source (args ! 2))) \<and>
   (suffix ''.h'' (args ! 2)
      \<and> base_name (c_str (args ! 1)) ''Gr'' ''.fp'' = Inr b
      \<and> compile_succeeds env True (settings\<lparr>fReplaceSettings := False\<rparr>) caps (toH b) kind source
          (args ! 2) evs1
      \<and> \<not> out_close env
            (evs1 @ compile_steps True (settings\<lparr>fReplaceSettings := False\<rparr>) caps (toH b) kind source
                      (args ! 2))
            (args ! 2)
    \<longrightarrow> processCommand env args evs =
          output_error_after (args ! 2)
            (evs1 @ compile_steps True (settings\<lparr>fReplaceSettings := False\<rparr>) caps (toH b) kind source
                      (args ! 2))) \<and>
   (suffix ''.cpp'' (args ! 2)
      \<and> base_name (c_str (args ! 1)) ''Gr'' ''.fp'' = Inr b
      \<and> compile_succeeds env True (settings\<lparr>fReplaceSettings := False\<rparr>) caps (toCPP b) kind source
          (args ! 2) evs1
      \<and> \<not> out_close env
            (evs1 @ compile_steps True (settings\<lparr>fReplaceSettings := False\<rparr>) caps (toCPP b) kind source
                      (args ! 2))
            (args ! 2)
    \<longrightarrow> processCommand env args evs =
          output_error_after (args ! 2)
            (evs1 @ compile_steps True (settings\<lparr>fReplaceSettings := False\<rparr>) caps (toCPP b) kind source
                      (args ! 2))) \<and>
   (suffix ''.dehydrated.sksl'' (args ! 2)
      \<and> out_isValid env evs1 (args ! 2)
      \<and> base_name (args ! 1) [] ''.sksl'' = Inr d
      \<and> \<not> out_close env (dehydrate_steps env kind (args ! 1) caps (args ! 2) d evs1) (args ! 2)
    \<longrightarrow> processCommand env args evs =
          output_error_after (args ! 2)
            (dehydrate_steps env kind (args ! 1) caps (args ! 2) d evs1))"
  proof (intro conjI impI)
    assume "suffix ''.spirv'' (args ! 2)
      \<and> compile_succeeds env False settings caps toSPIRV kind source (args ! 2) evs1
      \<and> \<not> out_close env (evs1 @ compile_steps False settings caps toSPIRV kind source (args ! 2)) (args ! 2)"
    then show "processCommand env args evs =
          output_error_after (args ! 2)
            (evs1 @ compile_steps False settings caps toSPIRV kind source (args ! 2))"
      using compile_to_failed_close [of env False "\<lambda>s. s" "(settings, caps)" toSPIRV kind source "args ! 2" evs1]
      by (simp add: pc route_spirv)
  next
    assume "suffix ''.glsl'' (args ! 2)
      \<and> compile_succeeds env False settings caps toGLSL kind source (args ! 2) evs1
      \<and> \<not> out_close env (evs1 @ compile_steps False settings caps toGLSL kind source (args ! 2)) (args ! 2)"
    then show "processCommand env args evs =
          output_error_after (args ! 2)
            (evs1 @ compile_steps False settings caps toGLSL kind source (args ! 2))"
      using compile_to_failed_close [of env False "\<lambda>s. s" "(settings, caps)" toGLSL kind source "args ! 2" evs1]
      by (simp add: pc route_glsl)
  next
    assume "suffix ''.metal'' (args ! 2)
      \<and> compile_succeeds env False settings caps toMetal kind source (args ! 2) evs1
      \<and> \<not> out_close env (evs1 @ compile_steps False settings caps toMetal kind source (args ! 2)) (args ! 2)"
    then show "processCommand env args evs =
          output_error_after (args ! 2)
            (evs1 @ compile_steps False settings caps toMetal kind source (args ! 2))"
      using compile_to_failed_close [of env False "\<lambda>s. s" "(settings, caps)" toMetal kind source "args ! 2" evs1]
      by (simp add: pc route_metal)
  next
    assume "suffix ''.h'' (args ! 2)
      \<and> base_name (c_str (args ! 1)) ''Gr'' ''.fp'' = Inr b
      \<and> compile_succeeds env True (settings\<lparr>fReplaceSettings := False\<rparr>) caps (toH b) kind source
          (args ! 2) evs1
      \<and> \<not> out_close env
            (evs1 @ compile_steps True (settings\<lparr>fReplaceSettings := False\<rparr>) caps (toH b) kind source
                      (args ! 2))
            (args ! 2)"
    then show "processCommand env args evs =
          output_error_after (args ! 2)
            (evs1 @ compile_steps True (settings\<lparr>fReplaceSettings := False\<rparr>) caps (toH b) kind source
                      (args ! 2))"
      using compile_to_failed_close [of env True "\<lambda>s. s\<lparr>fReplaceSettings := False\<rparr>" "(settings, caps)"
          "toH b" kind source "args ! 2" evs1]
      by (simp add: pc route_h)
  next
    assume "suffix ''.cpp'' (args ! 2)
      \<and> base_name (c_str (args ! 1)) ''Gr'' ''.fp'' = Inr b
      \<and> compile_succeeds env True (settings\<lparr>fReplaceSettings := False\<rparr>) caps (toCPP b) kind source
          (args ! 2) evs1
      \<and> \<not> out_close env
            (evs1 @ compile_steps True (settings\<lparr>fReplaceSettings := False\<rparr>) caps (toCPP b) kind source
                      (args ! 2))
            (args ! 2)"
    then show "processCommand env args evs =
          output_error_after (args ! 2)
            (evs1 @ compile_steps True (settings\<lparr>fReplaceSettings := False\<rparr>) caps (toCPP b) kind source
                      (args ! 2))"
      using compile_to_failed_close [of env True "\<lambda>s. s\<lparr>fReplaceSettings := False\<rparr>" "(settings, caps)"
          "toCPP b" kind source "args ! 2" evs1]
      by (simp add: pc route_cpp)
  next
    assume "suffix ''.dehydrated.sksl'' (args ! 2)
      \<and> out_isValid env evs1 (args ! 2)
      \<and> base_name (args ! 1) [] ''.sksl'' = Inr d
      \<and> \<not> out_close env (dehydrate_steps env kind (args ! 1) caps (args ! 2) d evs1) (args ! 2)"
    then show "processCommand env args evs =
          output_error_after (args ! 2)
            (dehydrate_steps env kind (args ! 1) caps (args ! 2) d evs1)"
      using dehydrate_to_failed_close [of env evs1 "args ! 2" "args ! 1" d kind "(settings, caps)"]
      by (simp add: pc route_dehydrated)
  qed
qed

theorem failed_close_is_output_error_witness:
  "fst (processCommand (sample_env False) [''skslc'', ''a.sksl'', ''a.spirv''] []) = Inr kOutputError \<and>
   fst (processCommand (sample_env False) [''skslc'', ''a.sksl'', ''a.glsl''] []) = Inr kOutputError \<and>
   fst (processCommand (sample_env False) [''skslc'', ''a.sksl'', ''a.metal''] []) = Inr kOutputError \<and>
   fst (processCommand (sample_env False) [''skslc'', ''GrFoo.fp'', ''GrFoo.h''] []) = Inr kOutputError \<and>
   fst (processCommand (sample_env False) [''skslc'', ''GrFoo.fp'', ''GrFoo.cpp''] []) = Inr kOutputError \<and>
   fst (processCommand (sample_env False) [''skslc'', ''a.fp'', ''a.dehydrated.sksl''] [])
     = Inr kOutputError"
proof -
  let ?env = "sample_env False"
  let ?src = "''/*#pragma settings NoInline*/ void main() {}''"
  let ?s = "sample_settings\<lparr>fInlineThreshold := 0\<rparr>"
  let ?s' = "?s\<lparr>fReplaceSettings := False\<rparr>"
  have fe: "front_end ?env [''skslc'', inp, out] [] =
      Some (kind, ?src, (?s, standaloneCaps), [Ifstream_read inp (Some ?src)])"
    if "resolve_kind inp = Some kind" "inp \<noteq> ''missing.sksl''" "inp \<noteq> ''bogus.sksl''"
      "inp \<noteq> ''broken.sksl''" for inp out kind
  proof -
    have "detect_shader_settings ?src (sample_settings, standaloneCaps) e = ((True, ?s, standaloneCaps), e)"
      for e
    proof -
      have "pragma_text ?src = Some '' NoInline''" by code_simp
      moreover have "rtl '' NoInline'' (sample_settings, standaloneCaps) = ([], ?s, standaloneCaps)"
        by code_simp
      ultimately show ?thesis
        by (simp add: detect_pragma_text settings_loop_rtl rtl_result_def)
    qed
    with that show ?thesis
      by (simp add: front_end_def check_args_def sample_env_def Let_def)
  qed
  have k: "resolve_kind ''a.sksl'' = Some kFragment_Kind"
    "resolve_kind ''GrFoo.fp'' = Some kFragmentProcessor_Kind"
    "resolve_kind ''a.fp'' = Some kFragmentProcessor_Kind"
    by code_simp+
  have ok: "compile_succeeds ?env f s c g kd ?src out e" if "\<not> prefix ''/readonly/'' out"
    for f s c g kd out e
    using that by (simp add: compile_succeeds_def sample_env_def)
  have cl: "\<not> out_close ?env e out" for e out
    by (simp add: sample_env_def)
  have v: "out_isValid ?env e ''a.dehydrated.sksl''" for e
    by (simp add: sample_env_def)
  have b: "base_name (c_str ''GrFoo.fp'') ''Gr'' ''.fp'' = Inr ''Foo''"
    "base_name ''a.fp'' [] ''.sksl'' = Inr []"
    by code_simp+
  have sx: "suffix ''.spirv'' ''a.spirv''" "suffix ''.glsl'' ''a.glsl''" "suffix ''.metal'' ''a.metal''"
    "suffix ''.h'' ''GrFoo.h''" "suffix ''.cpp'' ''GrFoo.cpp''"
    "suffix ''.dehydrated.sksl'' ''a.dehydrated.sksl''"
    by code_simp+
  have r1: "fst (processCommand ?env [''skslc'', ''a.sksl'', ''a.spirv''] []) = Inr kOutputError"
    using failed_close_is_output_error [where env = ?env and args = "[''skslc'', ''a.sksl'', ''a.spirv'']"
        and evs = "[]" and kind = kFragment_Kind and source = ?src and settings = ?s
        and caps = standaloneCaps and ?evs1.0 = "[Ifstream_read ''a.sksl'' (Some ?src)]"
        and b = "[]" and d = "[]"]
      fe [OF k(1), of "''a.spirv''"] ok cl sx
    by (simp add: output_error_after_def)
  have r2: "fst (processCommand ?env [''skslc'', ''a.sksl'', ''a.glsl''] []) = Inr kOutputError"
    using failed_close_is_output_error [where env = ?env and args = "[''skslc'', ''a.sksl'', ''a.glsl'']"
        and evs = "[]" and kind = kFragment_Kind and source = ?src and settings = ?s
        and caps = standaloneCaps and ?evs1.0 = "[Ifstream_read ''a.sksl'' (Some ?src)]"
        and b = "[]" and d = "[]"]
      fe [OF k(1), of "''a.glsl''"] ok cl sx
    by (simp add: output_error_after_def)
  have r3: "fst (processCommand ?env [''skslc'', ''a.sksl'', ''a.metal''] []) = Inr kOutputError"
    using failed_close_is_output_error [where env = ?env and args = "[''skslc'', ''a.sksl'', ''a.metal'']"
        and evs = "[]" and kind = kFragment_Kind and source = ?src and settings = ?s
        and caps = standaloneCaps and ?evs1.0 = "[Ifstream_read ''a.sksl'' (Some ?src)]"
        and b = "[]" and d = "[]"]
      fe [OF k(1), of "''a.metal''"] ok cl sx
    by (simp add: output_error_after_def)
  have r4: "fst (processCommand ?env [''skslc'', ''GrFoo.fp'', ''GrFoo.h''] []) = Inr kOutputError"
    using failed_close_is_output_error [where env = ?env and args = "[''skslc'', ''GrFoo.fp'', ''GrFoo.h'']"
        and evs = "[]" and kind = kFragmentProcessor_Kind and source = ?src and settings = ?s
        and caps = standaloneCaps and ?evs1.0 = "[Ifstream_read ''GrFoo.fp'' (Some ?src)]"
        and b = "''Foo''" and d = "[]"]
      fe [OF k(2), of "''GrFoo.h''"] ok cl b sx
    by (simp add: output_error_after_def)
  have r5: "fst (processCommand ?env [''skslc'', ''GrFoo.fp'', ''GrFoo.cpp''] []) = Inr kOutputError"
    using failed_close_is_output_error [where env = ?env and args = "[''skslc'', ''GrFoo.fp'', ''GrFoo.cpp'']"
        and evs = "[]" and kind = kFragmentProcessor_Kind and source = ?src and settings = ?s
        and caps = standaloneCaps and ?evs1.0 = "[Ifstream_read ''GrFoo.fp'' (Some ?src)]"
        and b = "''Foo''" and d = "[]"]
      fe [OF k(2), of "''GrFoo.cpp''"] ok cl b sx
    by (simp add: output_error_after_def)
  have r6: "fst (processCommand ?env [''skslc'', ''a.fp'', ''a.dehydrated.sksl''] []) = Inr kOutputError"
    using failed_close_is_output_error [where env = ?env and args = "[''skslc'', ''a.fp'', ''a.dehydrated.sksl'']"
        and evs = "[]" and kind = kFragmentProcessor_Kind and source = ?src and settings = ?s
        and caps = standaloneCaps and ?evs1.0 = "[Ifstream_read ''a.fp'' (Some ?src)]"
        and b = "[]" and d = "[]"]
      fe [OF k(3), of "''a.dehydrated.sksl''"] v cl b sx
    by (simp add: output_error_after_def)
  from r1 r2 r3 r4 r5 r6 show ?thesis by simp
qed

text \<open>
  The same read off the events of a job, whichever way the job went: where a close of the
  output failed and no open of the output, no conversion and no code generation failed,
  the job returns \<open>kOutputError\<close>.
\<close>

lemma failed_close_in_events:
  assumes "processCommand env args evs = (r, evs @ tr)"
    and "list_ex close_failed tr"
    and "\<not> list_ex step_failed tr"
  shows "r = Inr kOutputError"
proof (cases "check_args args evs")
  case (Inl evs')
  with assms show ?thesis
    by (auto simp: processCommand_def check_args_def show_usage_def Let_def split: if_splits)
next
  case (Inr honor)
  show ?thesis
  proof (cases "resolve_kind (args ! 1)")
    case None
    with Inr assms show ?thesis by (auto simp: processCommand_def)
  next
    case (Some kind)
    show ?thesis
    proof (cases "ifstream_read env evs (args ! 1)")
      case None
      with Inr Some assms show ?thesis by (auto simp: processCommand_def Let_def)
    next
      case src: (Some source)
      let ?evs1 = "evs @ [Ifstream_read (args ! 1) (Some source)]"
      define detected where "detected =
        (if honor then detect_shader_settings source (Settings_ctor env, standaloneCaps) ?evs1
         else ((True, Settings_ctor env, standaloneCaps), ?evs1))"
      have "\<exists>tr1. snd detected = ?evs1 @ tr1 \<and> \<not> list_ex close_failed tr1 \<and> \<not> list_ex step_failed tr1"
        using detect_extends [of source "(Settings_ctor env, standaloneCaps)" ?evs1]
        by (auto simp: detected_def)
      then obtain tr1 where tr1: "snd detected = ?evs1 @ tr1"
        "\<not> list_ex close_failed tr1" "\<not> list_ex step_failed tr1" by blast
      have pc: "processCommand env args evs =
          (if \<not> fst (fst detected) then (Inr kInputError, snd detected)
           else route env kind (args ! 1) source (snd (fst detected)) (args ! 2) (snd detected))"
        using Inr Some src by (simp add: processCommand_def Let_def detected_def)
      show ?thesis
      proof (cases "fst (fst detected)")
        case False
        with pc assms tr1 show ?thesis by auto
      next
        case True
        obtain tr2 where tr2: "snd (route env kind (args ! 1) source (snd (fst detected)) (args ! 2) (snd detected))
            = snd detected @ tr2"
          using route_extends by blast
        with pc True assms(1) tr1(1) have tr: "tr = Ifstream_read (args ! 1) (Some source) # tr1 @ tr2"
          by (cases "route env kind (args ! 1) source (snd (fst detected)) (args ! 2) (snd detected)") auto
        with assms(2,3) tr1(2,3) have "list_ex close_failed tr2" "\<not> list_ex step_failed tr2"
          by (auto simp: list_ex_iff)
        moreover from pc True assms(1) tr2
        have "route env kind (args ! 1) source (snd (fst detected)) (args ! 2) (snd detected)
            = (r, snd detected @ tr2)"
          by (cases "route env kind (args ! 1) source (snd (fst detected)) (args ! 2) (snd detected)") auto
        ultimately show ?thesis using route_close by blast
      qed
    qed
  qed
qed

text \<open>The six backends in the sample environment, with a close that fails and one that does not.\<close>

lemma close_failure_every_backend:
  "map (\<lambda>args. fst (processCommand (sample_env False) args []))
     [[''skslc'', ''a.sksl'', ''a.spirv''], [''skslc'', ''a.sksl'', ''a.glsl''],
      [''skslc'', ''a.sksl'', ''a.metal''], [''skslc'', ''GrFoo.fp'', ''GrFoo.h''],
      [''skslc'', ''GrFoo.fp'', ''GrFoo.cpp''], [''skslc'', ''a.sksl'', ''a.dehydrated.sksl'']]
     = replicate 6 (Inr kOutputError)
   \<and> map (\<lambda>args. fst (processCommand (sample_env True) args []))
     [[''skslc'', ''a.sksl'', ''a.spirv''], [''skslc'', ''a.sksl'', ''a.glsl''],
      [''skslc'', ''a.sksl'', ''a.metal''], [''skslc'', ''GrFoo.fp'', ''GrFoo.h''],
      [''skslc'', ''GrFoo.fp'', ''GrFoo.cpp''], [''skslc'', ''a.sksl'', ''a.dehydrated.sksl'']]
     = replicate 6 (Inr kSuccess)"
  by code_simp

text \<open>
  C10. On a text that contains the marker, with no \<^verbatim>\<open>*/\<close> anywhere after an occurrence of
  the marker, the parser returns true, leaves the settings and the capability pointer as
  they were and prints nothing.
\<close>

theorem detect_unterminated:
  assumes "sublist kPragmaSettings source"
    and "\<forall>pre rest. source = pre @ kPragmaSettings @ rest \<longrightarrow> \<not> sublist ''*/'' rest"
  shows "detect_shader_settings source st evs = ((True, st), evs)"
proof (cases "strstr (c_str source) kPragmaSettings")
  case None
  then show ?thesis by (simp add: detect_shader_settings_def)
next
  case (Some p)
  from strstr_c_str_sublist [OF Some] obtain a r t where
    t: "source = a @ kPragmaSettings @ r @ t" and p: "p = kPragmaSettings @ r" by blast
  have ptr: "drop (strlen kPragmaSettings - 1) p = CHR '' '' # r"
    by (simp add: p len_marker) (simp add: kPragmaSettings_def)
  have "strstr (CHR '' '' # r) ''*/'' = None"
  proof (rule ccontr)
    assume "strstr (CHR '' '' # r) ''*/'' \<noteq> None"
    then obtain q where "strstr (CHR '' '' # r) ''*/'' = Some q" by blast
    from strstr_SomeD [OF this] obtain b where b: "CHR '' '' # r = b @ q" "prefix ''*/'' q" by blast
    from b(2) obtain q' where q: "q = ''*/'' @ q'" by (auto simp: prefix_def)
    from b(1) q have "b \<noteq> []" by (cases b) auto
    with b(1) q have "r = tl b @ ''*/'' @ q'" by (cases b) auto
    then have "sublist ''*/'' (r @ t)" by (auto simp: sublist_def)
    moreover from assms(2) t have "\<not> sublist ''*/'' (r @ t)" by blast
    ultimately show False by simp
  qed
  with Some ptr show ?thesis by (simp add: detect_shader_settings_def)
qed

theorem detect_unterminated_witness:
  "sublist kPragmaSettings ''/*#pragma settings Sharpen void main() {}''
   \<and> detect_shader_settings ''/*#pragma settings Sharpen void main() {}''
       (sample_settings, standaloneCaps) []
     = ((True, sample_settings, standaloneCaps), [])"
proof -
  let ?source = "''/*#pragma settings Sharpen void main() {}''"
  have h1: "sublist kPragmaSettings ?source" by code_simp
  have h2: "\<forall>pre rest. ?source = pre @ kPragmaSettings @ rest \<longrightarrow> \<not> sublist ''*/'' rest"
  proof (intro allI impI)
    fix pre rest
    assume eq: "?source = pre @ kPragmaSettings @ rest"
    show "\<not> sublist ''*/'' rest"
    proof
      assume "sublist ''*/'' rest"
      then obtain a b where "rest = a @ ''*/'' @ b" by (auto simp: sublist_def)
      with eq have "?source = pre @ kPragmaSettings @ a @ ''*/'' @ b" by simp
      then have "length (filter (\<lambda>c. c = CHR ''/'') ?source)
          = length (filter (\<lambda>c. c = CHR ''/'') (pre @ kPragmaSettings @ a @ ''*/'' @ b))"
        by (simp only:)
      then show False by (simp add: kPragmaSettings_def)
    qed
  qed
  from detect_unterminated [OF h1 h2, of "(sample_settings, standaloneCaps)" "[]"] h1
  show ?thesis by simp
qed

end
